theory Spec2Isabelle
  imports Main "HOL-Library.Sublist" "HOL-Library.Multiset"
begin

section \<open>The name normaliser \<open>tidy\<close>\<close>

text \<open>
  The three scripts \<^verbatim>\<open>python/view_call_graph.py\<close>, \<^verbatim>\<open>view_call_graph_interactive.py\<close>
  and \<^verbatim>\<open>print_stack.py\<close> carry the same function \<^verbatim>\<open>tidy\<close>:
  \<^verbatim>\<open>
  def tidy(function_name):
      function_name = str(function_name)
      function_name = function_name.replace("arrow::", "")
      function_name = function_name.replace("engine::", "")
      function_name = function_name.replace("std::", "")
      function_name = function_name.replace("(anonymous namespace)::", "")
      if function_name.startswith("CheckNotYetImplementedTestCase"):
          function_name = "CheckNotYetImplementedTestCase"
      function_name = "".join(re.split("\(|\)", function_name)[::2])
      return function_name
  \<close>
  A name is a \<^typ>\<open>string\<close>; \<^verbatim>\<open>str\<close> of a string is the string itself. None of the
  string operations used can raise on a string, so the model is a total function with no
  error result.
\<close>

text \<open>
  \<^verbatim>\<open>s.replace(old, new)\<close>: one pass from the left over \<open>s\<close>; where \<open>old\<close> starts, \<open>new\<close> is
  written and the scan goes on behind the occurrence, so the text written is never scanned
  again. (For an empty \<open>old\<close> Python writes \<open>new\<close> before every character and at the end.)
\<close>

fun str_replace :: "string \<Rightarrow> string \<Rightarrow> string \<Rightarrow> string" where
  "str_replace old new [] = (if old = [] then new else [])"
| "str_replace old new (c # cs) =
     (if old = [] then new @ c # str_replace old new cs
      else if prefix old (c # cs) then new @ str_replace old new (drop (length old) (c # cs))
      else c # str_replace old new cs)"

text \<open>
  \<^verbatim>\<open>re.split("\(|\)", s)\<close>: the pieces of \<open>s\<close> between the parenthesis characters, one more
  piece than there are parentheses. The empty case of the \<open>case\<close> below is never reached,
  the result of a split has at least one piece.
\<close>

fun re_split_parens :: "string \<Rightarrow> string list" where
  "re_split_parens [] = [[]]"
| "re_split_parens (c # cs) =
     (if c = CHR ''('' \<or> c = CHR '')'' then [] # re_split_parens cs
      else (case re_split_parens cs of
              [] \<Rightarrow> [[c]]
            | seg # segs \<Rightarrow> (c # seg) # segs))"

text \<open>The slice \<^verbatim>\<open>[::2]\<close>: the elements at the even positions.\<close>

fun every_other :: "'a list \<Rightarrow> 'a list" where
  "every_other [] = []"
| "every_other [x] = [x]"
| "every_other (x # y # zs) = x # every_other zs"

text \<open>Lines 2 to 7 of the body: the four replacements and the collapse of the test family.\<close>

definition tidy_prefixes :: "string \<Rightarrow> string" where
  "tidy_prefixes function_name =
     (let s1 = str_replace ''arrow::'' [] function_name;
          s2 = str_replace ''engine::'' [] s1;
          s3 = str_replace ''std::'' [] s2;
          s4 = str_replace ''(anonymous namespace)::'' [] s3
      in if prefix ''CheckNotYetImplementedTestCase'' s4
         then ''CheckNotYetImplementedTestCase'' else s4)"

text \<open>Line 8 of the body: split at the parentheses, keep every other piece, join.\<close>

definition strip_groups :: "string \<Rightarrow> string" where
  "strip_groups s = concat (every_other (re_split_parens s))"

definition tidy :: "string \<Rightarrow> string" where
  "tidy function_name = strip_groups (tidy_prefixes function_name)"

section \<open>Python values used by the graph builder\<close>

datatype py_error = AttributeError | ValueError

text \<open>\<^verbatim>\<open>str(n)\<close> for an index \<open>n \<ge> 0\<close>: its decimal digits.\<close>

definition digit_char :: "nat \<Rightarrow> char" where
  "digit_char d = ''0123456789'' ! d"

fun str_nat :: "nat \<Rightarrow> string" where
  "str_nat n =
     (if n < 10 then [digit_char n]
      else str_nat (n div 10) @ [digit_char (n mod 10)])"

declare str_nat.simps [simp del]

text \<open>\<^verbatim>\<open>xs.index(x)\<close>: the first position of \<open>x\<close>, and \<^verbatim>\<open>ValueError\<close> when there is none.\<close>

fun list_index :: "'a list \<Rightarrow> 'a \<Rightarrow> py_error + nat" where
  "list_index [] x = Inl ValueError"
| "list_index (y # ys) x =
     (if y = x then Inr 0
      else (case list_index ys x of Inl e \<Rightarrow> Inl e | Inr i \<Rightarrow> Inr (Suc i)))"

text \<open>\<^verbatim>\<open>range(n)\<close>: empty when \<open>n \<le> 0\<close>, as for \<^verbatim>\<open>range(len(stack) - 1)\<close> on an empty stack.\<close>

definition py_range :: "int \<Rightarrow> nat list" where
  "py_range n = [0..<nat n]"

text \<open>
  \<^verbatim>\<open>stack_index is selected_stack_index\<close> compares the identity of two objects, not their
  values. \<open>stack_index\<close> is an integer that \<^verbatim>\<open>enumerate\<close> has just made;
  \<open>selected_stack_index\<close> is \<^verbatim>\<open>None\<close> (from \<^verbatim>\<open>on_exit\<close>) or an integer made earlier (the
  \<^verbatim>\<open>user_data\<close> of a table row, or a number typed by the user). The interpreter gdb embeds
  is CPython, which keeps one shared object for each integer from -5 to 256 and makes a new
  object for every other integer: the test is true exactly when the values are equal and at
  most 256.
\<close>

definition py_is :: "nat \<Rightarrow> int option \<Rightarrow> bool" where
  "py_is stack_index selected_stack_index =
     (case selected_stack_index of
        None \<Rightarrow> False
      | Some k \<Rightarrow> k = int stack_index \<and> k \<le> 256)"

section \<open>\<open>StackTraceBreakpoint\<close> of \<^verbatim>\<open>python/view_call_graph.py\<close>\<close>

text \<open>
  The object's fields. \<open>function_names\<close> is a Python \<^verbatim>\<open>set\<close>: it has no order of its own.
\<close>

record breakpoint =
  name :: string
  function_names :: "string set"
  stacks :: "string list list"

definition init :: breakpoint where
  "init = \<lparr>name = ''breakpoint_location'', function_names = {}, stacks = []\<rparr>"

text \<open>
  The frames of a stop, innermost first, as the chain \<^verbatim>\<open>frame, frame.older(), ...\<close> gives
  them until \<^verbatim>\<open>older()\<close> returns \<^verbatim>\<open>None\<close>. A frame is what \<^verbatim>\<open>frame.function()\<close> returns for
  it: \<open>Some n\<close> for a symbol of name \<open>n\<close>, \<open>None\<close> when gdb knows no function for the frame,
  where \<^verbatim>\<open>frame.function().name\<close> raises \<^verbatim>\<open>AttributeError\<close>.

  The loop of \<^verbatim>\<open>stop\<close>: it returns the error (if any), the stack built and the set of names
  as updated so far.
\<close>

fun walk_frames ::
  "string option list \<Rightarrow> string list \<Rightarrow> string set \<Rightarrow> py_error option \<times> string list \<times> string set"
where
  "walk_frames [] stack fns = (None, stack, fns)"
| "walk_frames (None # older) stack fns = (Some AttributeError, stack, fns)"
| "walk_frames (Some n # older) stack fns =
     walk_frames older (stack @ [tidy n]) (insert (tidy n) fns)"

text \<open>
  \<^verbatim>\<open>stop\<close>: the object after the call, and what the call did (the value returned, or the
  error raised, in which case the stack is not appended but the names already added stay).
\<close>

definition stop :: "string option list \<Rightarrow> breakpoint \<Rightarrow> breakpoint \<times> (py_error + bool)" where
  "stop frames bp =
     (case walk_frames frames [] (function_names bp) of
        (Some e, stack, fns) \<Rightarrow> (bp\<lparr>function_names := fns\<rparr>, Inl e)
      | (None, stack, fns) \<Rightarrow>
          (bp\<lparr>function_names := fns, stacks := stacks bp @ [stack]\<rparr>, Inr False))"

text \<open>A capture session: the breakpoint is hit once for each element of the list.\<close>

fun captures :: "string option list list \<Rightarrow> breakpoint \<Rightarrow> breakpoint" where
  "captures [] bp = bp"
| "captures (frames # rest) bp = captures rest (fst (stop frames bp))"

text \<open>
  The \<^verbatim>\<open>graphviz.Digraph\<close> built: its name, the node statements (identifier and label) in
  the order written, and the edge statements. The edges are written by a loop over a Python
  set, once each, in no particular order: they are kept as the set.
\<close>

record digraph =
  graph_name :: string
  node_stmts :: "(string \<times> string) list"
  edge_stmts :: "(string \<times> string) set"

text \<open>
  The loop \<^verbatim>\<open>for index, function_name in enumerate(self.function_names_list)\<close>, the same
  in both scripts: one node statement for each name, its identifier the position in the
  list, written as a string.
\<close>

definition add_nodes :: "string list \<Rightarrow> (string \<times> string) list" where
  "add_nodes fnl =
     map (\<lambda>(index, function_name). (str_nat index, function_name)) (enumerate 0 fnl)"

text \<open>
  The inner loop \<^verbatim>\<open>for i in range(len(stack) - 1)\<close>, over the indices still to visit.
  \<open>i + 1\<close> is below the length of the stack for each of them.
\<close>

fun add_stack_edges ::
  "string list \<Rightarrow> string list \<Rightarrow> nat list \<Rightarrow> (string \<times> string) set
    \<Rightarrow> py_error + (string \<times> string) set"
where
  "add_stack_edges fnl stack [] edges = Inr edges"
| "add_stack_edges fnl stack (i # is) edges =
     (case list_index fnl (stack ! (i + 1)) of
        Inl e \<Rightarrow> Inl e
      | Inr from_node \<Rightarrow>
          (case list_index fnl (stack ! i) of
             Inl e \<Rightarrow> Inl e
           | Inr to_node \<Rightarrow>
               add_stack_edges fnl stack is
                 (insert (str_nat from_node, str_nat to_node) edges)))"

text \<open>The outer loop \<^verbatim>\<open>for stack in self.stacks\<close>.\<close>

fun add_all_edges ::
  "string list \<Rightarrow> string list list \<Rightarrow> (string \<times> string) set
    \<Rightarrow> py_error + (string \<times> string) set"
where
  "add_all_edges fnl [] edges = Inr edges"
| "add_all_edges fnl (stack # rest) edges =
     (case add_stack_edges fnl stack (py_range (int (length stack) - 1)) edges of
        Inl e \<Rightarrow> Inl e
      | Inr edges' \<Rightarrow> add_all_edges fnl rest edges')"

text \<open>
  \<^verbatim>\<open>create_and_view_graph\<close>. Its first step is \<^verbatim>\<open>list(self.function_names)\<close>, whose order
  is the iteration order of the Python set: that list is the parameter \<open>fnl\<close>, and
  \<open>listing\<close> below says what Python promises of it. The graph is the result; showing it is
  left to graphviz.
\<close>

definition create_and_view_graph :: "string list \<Rightarrow> breakpoint \<Rightarrow> py_error + digraph" where
  "create_and_view_graph fnl bp =
     (case add_all_edges fnl (stacks bp) {} of
        Inl e \<Rightarrow> Inl e
      | Inr edges \<Rightarrow>
          Inr \<lparr>graph_name = name bp,
               node_stmts = add_nodes fnl,
               edge_stmts = edges\<rparr>)"

text \<open>
  A list that \<^verbatim>\<open>list(s)\<close> can return for the set \<open>s\<close>: every element once, in some order.
\<close>

definition listing :: "'a set \<Rightarrow> 'a list \<Rightarrow> bool" where
  "listing s xs \<longleftrightarrow> distinct xs \<and> set xs = s"

section \<open>\<open>StackTraceBreakpoint\<close> of \<^verbatim>\<open>view_call_graph_interactive.py\<close>\<close>

text \<open>
  The interactive script keeps, with every stack, the local variables of the innermost
  frame (a list of name and value), and colours the edges of the selected stack. Its
  \<^verbatim>\<open>stop\<close> first reads the locals from \<^verbatim>\<open>frame.block()\<close>, which is gdb's work: they are
  the parameter \<open>frame_locals\<close>. The rest of \<^verbatim>\<open>stop\<close> is the loop of the other script.
  The object also sets a breakpoint on \<^verbatim>\<open>exit\<close> that calls \<^verbatim>\<open>create_and_view_graph(None)\<close>
  and then shows the table, whose rows call \<^verbatim>\<open>create_and_view_graph(index)\<close>.
\<close>

type_synonym frame_locals = "(string \<times> string) list"

record breakpoint_i =
  name_i :: string
  function_names_i :: "string set"
  stacks_and_locals :: "(string list \<times> frame_locals) list"

definition init_i :: breakpoint_i where
  "init_i = \<lparr>name_i = ''array-c-bridge-test'', function_names_i = {}, stacks_and_locals = []\<rparr>"

definition stop_i ::
  "frame_locals \<Rightarrow> string option list \<Rightarrow> breakpoint_i \<Rightarrow> breakpoint_i \<times> (py_error + bool)"
where
  "stop_i frame_locals frames bp =
     (case walk_frames frames [] (function_names_i bp) of
        (Some e, stack, fns) \<Rightarrow> (bp\<lparr>function_names_i := fns\<rparr>, Inl e)
      | (None, stack, fns) \<Rightarrow>
          (bp\<lparr>function_names_i := fns,
              stacks_and_locals := stacks_and_locals bp @ [(stack, frame_locals)]\<rparr>,
           Inr False))"

fun captures_i :: "(frame_locals \<times> string option list) list \<Rightarrow> breakpoint_i \<Rightarrow> breakpoint_i" where
  "captures_i [] bp = bp"
| "captures_i ((frame_locals, frames) # rest) bp =
     captures_i rest (fst (stop_i frame_locals frames bp))"

record digraph_i =
  graph_name_i :: string
  node_stmts_i :: "(string \<times> string) list"
  edge_stmts_i :: "(string \<times> string \<times> string) set"

fun add_stack_edges_i ::
  "string list \<Rightarrow> int option \<Rightarrow> nat \<Rightarrow> string list \<Rightarrow> nat list
    \<Rightarrow> (string \<times> string \<times> string) set \<Rightarrow> py_error + (string \<times> string \<times> string) set"
where
  "add_stack_edges_i fnl selected_stack_index stack_index stack [] edges = Inr edges"
| "add_stack_edges_i fnl selected_stack_index stack_index stack (i # is) edges =
     (case list_index fnl (stack ! (i + 1)) of
        Inl e \<Rightarrow> Inl e
      | Inr from_node \<Rightarrow>
          (case list_index fnl (stack ! i) of
             Inl e \<Rightarrow> Inl e
           | Inr to_node \<Rightarrow>
               add_stack_edges_i fnl selected_stack_index stack_index stack is
                 (insert (str_nat from_node, str_nat to_node,
                          if py_is stack_index selected_stack_index then ''red'' else ''black'')
                    edges)))"

fun add_all_edges_i ::
  "string list \<Rightarrow> int option \<Rightarrow> (nat \<times> string list \<times> frame_locals) list
    \<Rightarrow> (string \<times> string \<times> string) set \<Rightarrow> py_error + (string \<times> string \<times> string) set"
where
  "add_all_edges_i fnl selected_stack_index [] edges = Inr edges"
| "add_all_edges_i fnl selected_stack_index ((stack_index, stack, locals) # rest) edges =
     (case add_stack_edges_i fnl selected_stack_index stack_index stack
             (py_range (int (length stack) - 1)) edges of
        Inl e \<Rightarrow> Inl e
      | Inr edges' \<Rightarrow> add_all_edges_i fnl selected_stack_index rest edges')"

definition create_and_view_graph_i ::
  "string list \<Rightarrow> int option \<Rightarrow> breakpoint_i \<Rightarrow> py_error + digraph_i"
where
  "create_and_view_graph_i fnl selected_stack_index bp =
     (case add_all_edges_i fnl selected_stack_index (enumerate 0 (stacks_and_locals bp)) {} of
        Inl e \<Rightarrow> Inl e
      | Inr edges \<Rightarrow>
          Inr \<lparr>graph_name_i = name_i bp,
               node_stmts_i = add_nodes fnl,
               edge_stmts_i = edges\<rparr>)"

section \<open>Notions of the specification\<close>

text \<open>
  The adjacencies of one trace: the pairs (caller, callee) = (frame \<open>i + 1\<close>, frame \<open>i\<close>).
\<close>

definition adjacent :: "'a list \<Rightarrow> ('a \<times> 'a) set" where
  "adjacent stack = set (zip (tl stack) stack)"

text \<open>The distinct adjacencies observed across all traces.\<close>

definition observed :: "'a list list \<Rightarrow> ('a \<times> 'a) set" where
  "observed sts = \<Union> (set (map adjacent sts))"

text \<open>The identifier of a name under a listing: its position, as the string written.\<close>

definition index_of :: "'a list \<Rightarrow> 'a \<Rightarrow> nat" where
  "index_of fnl x = length (takeWhile (\<lambda>y. y \<noteq> x) fnl)"

definition node_id :: "string list \<Rightarrow> string \<Rightarrow> string" where
  "node_id fnl x = str_nat (index_of fnl x)"

definition edge_id :: "string list \<Rightarrow> string \<times> string \<Rightarrow> string \<times> string" where
  "edge_id fnl e = (node_id fnl (fst e), node_id fnl (snd e))"

text \<open>
  What it means that node statements give the names of a set identifiers one-to-one,
  under a listing of the set.
\<close>

definition assigns_ids :: "(string \<times> string) list \<Rightarrow> string list \<Rightarrow> string set \<Rightarrow> bool" where
  "assigns_ids nodes fnl s \<longleftrightarrow>
     map snd nodes = fnl \<and> map fst nodes = map str_nat [0..<length fnl] \<and>
     distinct (map fst nodes) \<and> distinct (map snd nodes) \<and> set (map snd nodes) = s \<and>
     bij_betw (node_id fnl) s (set (map fst nodes)) \<and>
     (\<forall>x\<in>s. map_of nodes (node_id fnl x) = Some x \<and> list_index fnl x = Inr (index_of fnl x))"

text \<open>The edges of a graph read through its node statements: the pairs of labels.\<close>

definition labelled_edges :: "digraph \<Rightarrow> (string option \<times> string option) set" where
  "labelled_edges g =
     (\<lambda>e. (map_of (node_stmts g) (fst e), map_of (node_stmts g) (snd e))) ` edge_stmts g"

text \<open>The edges of an interactive graph with a given colour.\<close>

definition coloured :: "string \<Rightarrow> digraph_i \<Rightarrow> (string \<times> string) set" where
  "coloured c g = (\<lambda>e. (fst e, fst (snd e))) ` {e \<in> edge_stmts_i g. snd (snd e) = c}"

text \<open>
  The trace of one stop: the normalised names of the frames read, up to the first frame
  without a function.
\<close>

fun names_read :: "string option list \<Rightarrow> string list" where
  "names_read [] = []"
| "names_read (None # older) = []"
| "names_read (Some n # older) = tidy n # names_read older"

text \<open>The edges an interactive graph holds for numbered traces and a selected index.\<close>

definition paint :: "string list \<Rightarrow> int option \<Rightarrow> nat \<Rightarrow> string \<times> string \<Rightarrow> string \<times> string \<times> string" where
  "paint fnl sel k e =
     (node_id fnl (fst e), node_id fnl (snd e), if py_is k sel then ''red'' else ''black'')"

definition painted ::
  "string list \<Rightarrow> int option \<Rightarrow> (nat \<times> string list \<times> frame_locals) list
    \<Rightarrow> (string \<times> string \<times> string) set" where
  "painted fnl sel ksts = (\<Union>(k, stack, locals)\<in>set ksts. paint fnl sel k ` adjacent stack)"

text \<open>The names of a list of traces in the order in which they are first seen.\<close>

definition first_seen :: "'a list list \<Rightarrow> 'a list" where
  "first_seen sts = rev (remdups (rev (concat sts)))"

text \<open>Parentheses that match: \<open>balanced_from d s\<close> with \<open>d\<close> groups open before \<open>s\<close>.\<close>

fun balanced_from :: "nat \<Rightarrow> string \<Rightarrow> bool" where
  "balanced_from d [] = (d = 0)"
| "balanced_from d (c # cs) =
     (if c = CHR ''('' then balanced_from (Suc d) cs
      else if c = CHR '')'' then 0 < d \<and> balanced_from (d - 1) cs
      else balanced_from d cs)"

section \<open>Properties of \<open>tidy\<close>\<close>

lemma re_split_parens_nonempty: "re_split_parens s \<noteq> []"
  by (induction s) (auto split: list.splits)

lemma re_split_parens_plain:
  "CHR ''('' \<notin> set s \<Longrightarrow> CHR '')'' \<notin> set s \<Longrightarrow> re_split_parens s = [s]"
  by (induction s) auto

lemma set_every_other: "set (every_other xs) \<subseteq> set xs"
  by (induction xs rule: every_other.induct) auto

lemma re_split_parens_segments:
  "seg \<in> set (re_split_parens s) \<Longrightarrow> CHR ''('' \<notin> set seg \<and> CHR '')'' \<notin> set seg"
proof (induction s arbitrary: seg)
  case Nil
  then show ?case by simp
next
  case (Cons c cs)
  show ?case
  proof (cases "c = CHR ''('' \<or> c = CHR '')''")
    case True
    with Cons show ?thesis by auto
  next
    case False
    obtain h t where ht: "re_split_parens cs = h # t"
      using re_split_parens_nonempty by (cases "re_split_parens cs") auto
    with Cons.prems False have "seg = c # h \<or> seg \<in> set t" by auto
    moreover have "CHR ''('' \<notin> set h \<and> CHR '')'' \<notin> set h"
      using Cons.IH[of h] ht by simp
    moreover have "seg \<in> set t \<Longrightarrow> CHR ''('' \<notin> set seg \<and> CHR '')'' \<notin> set seg"
      using Cons.IH[of seg] ht by simp
    ultimately show ?thesis using False by auto
  qed
qed

lemma strip_groups_no_parens:
  "CHR ''('' \<notin> set (strip_groups s) \<and> CHR '')'' \<notin> set (strip_groups s)"
  using re_split_parens_segments set_every_other
  unfolding strip_groups_def by fastforce

lemma tidy_no_parens: "CHR ''('' \<notin> set (tidy r) \<and> CHR '')'' \<notin> set (tidy r)"
  unfolding tidy_def by (rule strip_groups_no_parens)

lemma strip_groups_plain:
  "CHR ''('' \<notin> set s \<Longrightarrow> CHR '')'' \<notin> set s \<Longrightarrow> strip_groups s = s"
  by (simp add: strip_groups_def re_split_parens_plain)

lemma str_replace_absent:
  "old \<noteq> [] \<Longrightarrow> \<not> sublist old s \<Longrightarrow> str_replace old new s = s"
proof (induction s)
  case Nil
  then show ?case by simp
next
  case (Cons c cs)
  from Cons.prems have np: "\<not> prefix old (c # cs)"
    by (auto dest: prefix_imp_sublist)
  from Cons.prems have "\<not> sublist old cs"
    by (auto simp: sublist_Cons_right)
  with Cons np show ?case by simp
qed

lemma sublist_set: "sublist xs ys \<Longrightarrow> set xs \<subseteq> set ys"
  by (auto simp: sublist_def)

lemma anonymous_absent:
  "CHR ''('' \<notin> set s \<Longrightarrow> \<not> sublist ''(anonymous namespace)::'' s"
  by (auto dest: sublist_set)

lemma tidy_prefixes_fixed:
  assumes "\<not> sublist ''arrow::'' t" "\<not> sublist ''engine::'' t" "\<not> sublist ''std::'' t"
    and "CHR ''('' \<notin> set t"
    and "prefix ''CheckNotYetImplementedTestCase'' t \<longrightarrow> t = ''CheckNotYetImplementedTestCase''"
  shows "tidy_prefixes t = t"
  using assms by (auto simp: tidy_prefixes_def Let_def str_replace_absent anonymous_absent)

lemma set_str_replace_empty: "set (str_replace old [] s) \<subseteq> set s"
proof (induction old "[] :: string" s rule: str_replace.induct)
  case (1 old)
  then show ?case by simp
next
  case (2 old c cs)
  have "set (drop (length old) (c # cs)) \<subseteq> set (c # cs)"
    by (rule set_drop_subset)
  with 2 show ?case by (auto split: if_splits)
qed

lemma tidy_prefixes_chars:
  "set (tidy_prefixes r) \<subseteq> set r \<union> set ''CheckNotYetImplementedTestCase''"
proof -
  have "set (str_replace ''(anonymous namespace)::'' []
          (str_replace ''std::'' [] (str_replace ''engine::'' [] (str_replace ''arrow::'' [] r))))
        \<subseteq> set r"
    using set_str_replace_empty by (meson order_trans)
  then show ?thesis
    unfolding tidy_prefixes_def Let_def by (auto split: if_splits)
qed

text \<open>
  Claim C8. \<open>tidy\<close> strips the namespace prefixes and the parenthesised argument list:
  \<open>arrow::engine::Foo(int)\<close> becomes \<open>Foo\<close>; and a name of the test family
  \<open>CheckNotYetImplementedTestCase\<close> (the one family the code knows) collapses to the
  family's name.
\<close>

theorem tidy_examples:
  "tidy ''arrow::engine::Foo(int)'' = ''Foo'' \<and>
   tidy ''CheckNotYetImplementedTestCase<Bar,Baz>(x)'' = ''CheckNotYetImplementedTestCase''"
  by (simp add: tidy_def tidy_prefixes_def strip_groups_def)

lemma length_str_replace_empty: "length (str_replace old [] s) \<le> length s"
proof (induction old "[] :: string" s rule: str_replace.induct)
  case (1 old)
  then show ?case by simp
next
  case (2 old c cs)
  then show ?case by (auto split: if_splits)
qed

lemma length_str_replace_less:
  "old \<noteq> [] \<Longrightarrow> sublist old s \<Longrightarrow> length (str_replace old [] s) < length s"
proof (induction s)
  case Nil
  then show ?case by simp
next
  case (Cons c cs)
  show ?case
  proof (cases "prefix old (c # cs)")
    case True
    have "length (str_replace old [] (drop (length old) (c # cs))) \<le> length (drop (length old) (c # cs))"
      by (rule length_str_replace_empty)
    also have "\<dots> < length (c # cs)"
      using Cons.prems(1) by (cases old) simp_all
    finally show ?thesis using True Cons.prems(1) by simp
  next
    case False
    with Cons.prems have "sublist old cs"
      by (simp add: sublist_Cons_right)
    with Cons have "length (str_replace old [] cs) < length cs" by simp
    with False Cons.prems(1) show ?thesis by simp
  qed
qed

lemma length_concat_every_other: "length (concat (every_other xs)) \<le> length (concat xs)"
  by (induction xs rule: every_other.induct) simp_all

lemma length_concat_split: "length (concat (re_split_parens s)) \<le> length s"
  by (induction s) (auto split: list.splits)

lemma length_strip_groups: "length (strip_groups s) \<le> length s"
  unfolding strip_groups_def
  using length_concat_every_other[of "re_split_parens s"] length_concat_split[of s]
  by (rule order_trans)

lemma tidy_fixed_only_if:
  assumes "tidy t = t"
  shows "\<not> sublist ''arrow::'' t \<and> \<not> sublist ''engine::'' t \<and> \<not> sublist ''std::'' t
    \<and> (prefix ''CheckNotYetImplementedTestCase'' t \<longrightarrow> t = ''CheckNotYetImplementedTestCase'')"
proof -
  define s1 where "s1 = str_replace ''arrow::'' [] t"
  define s2 where "s2 = str_replace ''engine::'' [] s1"
  define s3 where "s3 = str_replace ''std::'' [] s2"
  define s4 where "s4 = str_replace ''(anonymous namespace)::'' [] s3"
  define s5 where "s5 = (if prefix ''CheckNotYetImplementedTestCase'' s4
         then ''CheckNotYetImplementedTestCase'' else s4)"
  have t: "tidy t = strip_groups s5"
    by (simp add: tidy_def tidy_prefixes_def s1_def s2_def s3_def s4_def s5_def)
  have l1: "length s1 \<le> length t" and l2: "length s2 \<le> length s1"
    and l3: "length s3 \<le> length s2" and l4: "length s4 \<le> length s3"
    unfolding s1_def s2_def s3_def s4_def by (rule length_str_replace_empty)+
  have l5: "length s5 \<le> length s4"
    unfolding s5_def by (auto dest: prefix_length_le)
  have l6: "length t \<le> length s5"
    using length_strip_groups[of s5] assms t by simp
  have a: "\<not> sublist ''arrow::'' t"
  proof
    assume "sublist ''arrow::'' t"
    then have "length s1 < length t"
      unfolding s1_def by (intro length_str_replace_less) simp_all
    with l2 l3 l4 l5 l6 show False by simp
  qed
  then have e1: "s1 = t" unfolding s1_def by (intro str_replace_absent) simp_all
  have b: "\<not> sublist ''engine::'' t"
  proof
    assume "sublist ''engine::'' t"
    then have "length s2 < length s1"
      unfolding s2_def e1 by (intro length_str_replace_less) simp_all
    with l1 l3 l4 l5 l6 show False by simp
  qed
  then have e2: "s2 = t" unfolding s2_def e1 by (intro str_replace_absent) simp_all
  have c: "\<not> sublist ''std::'' t"
  proof
    assume "sublist ''std::'' t"
    then have "length s3 < length s2"
      unfolding s3_def e2 by (intro length_str_replace_less) simp_all
    with l1 l2 l4 l5 l6 show False by simp
  qed
  then have e3: "s3 = t" unfolding s3_def e2 by (intro str_replace_absent) simp_all
  have "\<not> sublist ''(anonymous namespace)::'' t"
  proof
    assume "sublist ''(anonymous namespace)::'' t"
    then have "length s4 < length s3"
      unfolding s4_def e3 by (intro length_str_replace_less) simp_all
    with l1 l2 l3 l5 l6 show False by simp
  qed
  then have e4: "s4 = t" unfolding s4_def e3 by (intro str_replace_absent) simp_all
  have d: "t = ''CheckNotYetImplementedTestCase''" if p: "prefix ''CheckNotYetImplementedTestCase'' t"
  proof -
    from p have "s5 = ''CheckNotYetImplementedTestCase''" by (simp add: s5_def e4)
    with l6 have "length t \<le> length ''CheckNotYetImplementedTestCase''" by simp
    moreover from p obtain zs where "t = ''CheckNotYetImplementedTestCase'' @ zs"
      by (auto simp: prefix_def)
    ultimately show ?thesis by simp
  qed
  from a b c d show ?thesis by blast
qed

lemma tidy_fixed_if:
  assumes "\<not> sublist ''arrow::'' (tidy r)" "\<not> sublist ''engine::'' (tidy r)" "\<not> sublist ''std::'' (tidy r)"
    and "prefix ''CheckNotYetImplementedTestCase'' (tidy r) \<longrightarrow> tidy r = ''CheckNotYetImplementedTestCase''"
  shows "tidy (tidy r) = tidy r"
proof -
  have "tidy_prefixes (tidy r) = tidy r"
    using assms tidy_no_parens by (intro tidy_prefixes_fixed) auto
  then show ?thesis
    using tidy_no_parens[of r] by (simp add: tidy_def[of "tidy r"] strip_groups_plain)
qed

section \<open>Claims about \<open>tidy\<close>\<close>

text \<open>
  Claim C5, as stated (normalising twice gives the same as normalising once, for every raw
  name), fails: the replacements make one pass each, and what is left after a removal may
  read as a prefix again. \<open>sstd::td::f\<close> normalises to \<open>std::f\<close>, which normalises to \<open>f\<close>.
\<close>

theorem tidy_twice_differs: "tidy (tidy ''sstd::td::f'') \<noteq> tidy ''sstd::td::f''"
  by (simp add: tidy_def tidy_prefixes_def strip_groups_def)

text \<open>
  Claim C5, amended. Normalising is idempotent on a raw name exactly when its normalised
  form holds none of \<open>arrow::\<close>, \<open>engine::\<close>, \<open>std::\<close> and does not begin with
  \<open>CheckNotYetImplementedTestCase\<close> unless it is that name. (A normalised form never holds
  a parenthesis, so the fourth prefix and the last step need no condition.)
\<close>

theorem tidy_idempotent_iff:
  "tidy (tidy r) = tidy r \<longleftrightarrow>
     \<not> sublist ''arrow::'' (tidy r) \<and> \<not> sublist ''engine::'' (tidy r) \<and>
     \<not> sublist ''std::'' (tidy r) \<and>
     (prefix ''CheckNotYetImplementedTestCase'' (tidy r)
        \<longrightarrow> tidy r = ''CheckNotYetImplementedTestCase'')"
proof
  assume "tidy (tidy r) = tidy r"
  then show "\<not> sublist ''arrow::'' (tidy r) \<and> \<not> sublist ''engine::'' (tidy r) \<and>
     \<not> sublist ''std::'' (tidy r) \<and>
     (prefix ''CheckNotYetImplementedTestCase'' (tidy r)
        \<longrightarrow> tidy r = ''CheckNotYetImplementedTestCase'')"
    by (rule tidy_fixed_only_if)
next
  assume "\<not> sublist ''arrow::'' (tidy r) \<and> \<not> sublist ''engine::'' (tidy r) \<and>
     \<not> sublist ''std::'' (tidy r) \<and>
     (prefix ''CheckNotYetImplementedTestCase'' (tidy r)
        \<longrightarrow> tidy r = ''CheckNotYetImplementedTestCase'')"
  then show "tidy (tidy r) = tidy r"
    by (intro tidy_fixed_if) simp_all
qed

theorem tidy_idempotent_iff_witness:
  "\<not> sublist ''arrow::'' (tidy ''arrow::engine::Foo(int)'') \<and>
   \<not> sublist ''engine::'' (tidy ''arrow::engine::Foo(int)'') \<and>
   \<not> sublist ''std::'' (tidy ''arrow::engine::Foo(int)'') \<and>
   \<not> prefix ''CheckNotYetImplementedTestCase'' (tidy ''arrow::engine::Foo(int)'') \<and>
   tidy (tidy ''arrow::engine::Foo(int)'') = tidy ''arrow::engine::Foo(int)''"
proof -
  have t: "tidy ''arrow::engine::Foo(int)'' = ''Foo''"
    by (simp add: tidy_def tidy_prefixes_def strip_groups_def)
  have h: "\<not> sublist ''arrow::'' (tidy ''arrow::engine::Foo(int)'')"
    "\<not> sublist ''engine::'' (tidy ''arrow::engine::Foo(int)'')"
    "\<not> sublist ''std::'' (tidy ''arrow::engine::Foo(int)'')"
    "\<not> prefix ''CheckNotYetImplementedTestCase'' (tidy ''arrow::engine::Foo(int)'')"
    unfolding t by (simp_all add: sublist_Cons_right)
  from h(4) have "prefix ''CheckNotYetImplementedTestCase'' (tidy ''arrow::engine::Foo(int)'')
    \<longrightarrow> tidy ''arrow::engine::Foo(int)'' = ''CheckNotYetImplementedTestCase''"
    by blast
  with h(1,2,3) tidy_idempotent_iff[of "''arrow::engine::Foo(int)''"] h(4) show ?thesis
    by blast
qed

text \<open>
  Claim C7, as stated (a name with unbalanced parentheses is left with nothing stripped),
  fails: the split does not look for matching parentheses, and every piece at an odd
  position is dropped. In \<open>foo(bar\<close> the parenthesis is never closed, and \<open>bar\<close> is
  dropped.
\<close>

theorem tidy_unbalanced_strips:
  "\<not> balanced_from 0 ''foo(bar'' \<and> tidy ''foo(bar'' = ''foo''"
  by (simp add: tidy_def tidy_prefixes_def strip_groups_def)

text \<open>
  Claim C7, amended. \<open>tidy\<close> never raises (it is total). For every raw name without any
  parenthesis the last step strips nothing: the result is the name as the replacements and
  the family collapse leave it.
\<close>

theorem tidy_without_parens:
  assumes "CHR ''('' \<notin> set r" "CHR '')'' \<notin> set r"
  shows "strip_groups r = r \<and> tidy r = tidy_prefixes r"
proof -
  have "CHR ''('' \<notin> set (tidy_prefixes r)" "CHR '')'' \<notin> set (tidy_prefixes r)"
    using tidy_prefixes_chars[of r] assms by auto
  then show ?thesis
    using assms by (simp add: tidy_def strip_groups_plain)
qed

theorem tidy_without_parens_witness:
  "CHR ''('' \<notin> set ''arrow::Foo'' \<and> CHR '')'' \<notin> set ''arrow::Foo'' \<and>
   strip_groups ''arrow::Foo'' = ''arrow::Foo'' \<and> tidy ''arrow::Foo'' = ''Foo''"
proof -
  have a: "CHR ''('' \<notin> set ''arrow::Foo''" and b: "CHR '')'' \<notin> set ''arrow::Foo''"
    by simp_all
  have "tidy_prefixes ''arrow::Foo'' = ''Foo''"
    by (simp add: tidy_prefixes_def)
  with tidy_without_parens[OF a b] a b show ?thesis by simp
qed

section \<open>Positions, identifiers and edges\<close>

lemma index_of_less: "x \<in> set xs \<Longrightarrow> index_of xs x < length xs"
  unfolding index_of_def by (induction xs) auto

lemma nth_index_of: "x \<in> set xs \<Longrightarrow> xs ! index_of xs x = x"
  unfolding index_of_def by (induction xs) auto

lemma index_of_nth: "distinct xs \<Longrightarrow> i < length xs \<Longrightarrow> index_of xs (xs ! i) = i"
  unfolding index_of_def
proof (induction xs arbitrary: i)
  case Nil
  then show ?case by simp
next
  case (Cons a xs)
  then show ?case by (cases i) auto
qed

lemma index_of_inj: "x \<in> set xs \<Longrightarrow> index_of xs x = index_of xs y \<Longrightarrow> x = y"
  unfolding index_of_def by (induction xs) (auto split: if_splits)

lemma list_index_found: "x \<in> set xs \<Longrightarrow> list_index xs x = Inr (index_of xs x)"
  unfolding index_of_def by (induction xs) auto

lemma list_index_missing: "x \<notin> set xs \<Longrightarrow> list_index xs x = Inl ValueError"
  by (induction xs) auto

lemma str_nat_nonempty: "str_nat n \<noteq> []"
  by (subst str_nat.simps) simp

lemma digit_char_inj:
  assumes "a < 10" "b < 10" "digit_char a = digit_char b"
  shows "a = b"
proof -
  have "distinct ''0123456789''" by simp
  moreover have "length ''0123456789'' = 10" by simp
  ultimately show ?thesis
    using assms unfolding digit_char_def
    by (metis nth_eq_iff_index_eq)
qed

lemma str_nat_inj: "str_nat n = str_nat m \<Longrightarrow> n = m"
proof (induction n arbitrary: m rule: less_induct)
  case (less n)
  show ?case
  proof (cases "n < 10")
    case n: True
    show ?thesis
    proof (cases "m < 10")
      case True
      with n less.prems show ?thesis
        by (simp add: str_nat.simps[of n] str_nat.simps[of m] digit_char_inj)
    next
      case False
      with n less.prems str_nat_nonempty[of "m div 10"] show ?thesis
        by (simp add: str_nat.simps[of n] str_nat.simps[of m] Cons_eq_append_conv)
    qed
  next
    case n: False
    show ?thesis
    proof (cases "m < 10")
      case True
      with n less.prems str_nat_nonempty[of "n div 10"] show ?thesis
        by (simp add: str_nat.simps[of n] str_nat.simps[of m] append_eq_Cons_conv)
    next
      case False
      with n less.prems have e: "str_nat (n div 10) = str_nat (m div 10)"
        and d: "digit_char (n mod 10) = digit_char (m mod 10)"
        by (simp_all add: str_nat.simps[of n] str_nat.simps[of m])
      from n have "n div 10 < n" by simp
      with less.IH e have "n div 10 = m div 10" by blast
      moreover from d have "n mod 10 = m mod 10"
        by (intro digit_char_inj) simp_all
      ultimately show ?thesis
        by (metis div_mult_mod_eq)
    qed
  qed
qed

lemma set_py_range: "set (py_range (int (length stack) - 1)) = {i. i + 1 < length stack}"
  by (auto simp: py_range_def)

lemma adjacent_nth: "adjacent stack = (\<lambda>i. (stack ! (i + 1), stack ! i)) ` {i. i + 1 < length stack}"
proof -
  have "adjacent stack = {(tl stack ! i, stack ! i) | i. i < min (length (tl stack)) (length stack)}"
    unfolding adjacent_def by (rule set_zip)
  also have "\<dots> = {(stack ! (i + 1), stack ! i) | i. i + 1 < length stack}"
  proof -
    have "\<And>i. i < min (length (tl stack)) (length stack) \<longleftrightarrow> i + 1 < length stack"
      by auto
    moreover have "\<And>i. i + 1 < length stack \<Longrightarrow> tl stack ! i = stack ! (i + 1)"
      by (simp add: nth_tl)
    ultimately show ?thesis by (intro Collect_cong) (metis (no_types))
  qed
  finally show ?thesis by auto
qed

lemma adjacent_subset: "adjacent stack \<subseteq> set stack \<times> set stack"
  unfolding adjacent_nth by auto

lemma adjacent_short: "length stack < 2 \<Longrightarrow> adjacent stack = {}"
  unfolding adjacent_nth by auto

lemma add_stack_edges_ok:
  assumes "set stack \<subseteq> set fnl" "\<forall>i\<in>set is. i + 1 < length stack"
  shows "add_stack_edges fnl stack is edges =
    Inr (edges \<union> (\<lambda>i. edge_id fnl (stack ! (i + 1), stack ! i)) ` set is)"
  using assms(2)
proof (induction "is" arbitrary: edges)
  case Nil
  then show ?case by simp
next
  case (Cons i "is")
  from Cons.prems have "stack ! (i + 1) \<in> set fnl" "stack ! i \<in> set fnl"
    using assms(1) by (auto simp: subset_iff)
  then have "list_index fnl (stack ! (i + 1)) = Inr (index_of fnl (stack ! (i + 1)))"
    "list_index fnl (stack ! i) = Inr (index_of fnl (stack ! i))"
    by (simp_all add: list_index_found)
  moreover have "add_stack_edges fnl stack is (insert (edge_id fnl (stack ! (i + 1), stack ! i)) edges)
    = Inr (insert (edge_id fnl (stack ! (i + 1), stack ! i)) edges
           \<union> (\<lambda>i. edge_id fnl (stack ! (i + 1), stack ! i)) ` set is)"
    using Cons.prems by (intro Cons.IH) simp
  ultimately show ?case
    by (simp add: edge_id_def node_id_def)
qed

lemma add_stack_edges_adjacent:
  assumes "set stack \<subseteq> set fnl"
  shows "add_stack_edges fnl stack (py_range (int (length stack) - 1)) edges =
    Inr (edges \<union> edge_id fnl ` adjacent stack)"
proof -
  have "add_stack_edges fnl stack (py_range (int (length stack) - 1)) edges =
    Inr (edges \<union> (\<lambda>i. edge_id fnl (stack ! (i + 1), stack ! i)) ` set (py_range (int (length stack) - 1)))"
    using assms by (intro add_stack_edges_ok) (simp_all add: set_py_range)
  then show ?thesis
    by (simp add: set_py_range adjacent_nth image_image)
qed

lemma add_all_edges_ok:
  assumes "\<forall>stack\<in>set sts. set stack \<subseteq> set fnl"
  shows "add_all_edges fnl sts edges = Inr (edges \<union> edge_id fnl ` observed sts)"
  using assms
proof (induction sts arbitrary: edges)
  case Nil
  then show ?case by (simp add: observed_def)
next
  case (Cons stack sts)
  then show ?case
    by (simp add: add_stack_edges_adjacent observed_def image_Un Un_assoc)
qed

lemma observed_subset: "observed sts \<subseteq> (\<Union>stack\<in>set sts. set stack) \<times> (\<Union>stack\<in>set sts. set stack)"
  unfolding observed_def using adjacent_subset by fastforce

lemma edge_id_inj_on: "inj_on (edge_id fnl) (set fnl \<times> set fnl)"
  unfolding inj_on_def edge_id_def node_id_def
  by (auto dest!: str_nat_inj dest: index_of_inj)

section \<open>What a session records\<close>

lemma walk_frames_eq:
  "walk_frames frames stack fns =
    (if None \<in> set frames then Some AttributeError else None,
     stack @ names_read frames, fns \<union> set (names_read frames))"
  by (induction frames stack fns rule: walk_frames.induct) auto

lemma stop_eq:
  "stop frames bp =
    (if None \<in> set frames
     then (bp\<lparr>function_names := function_names bp \<union> set (names_read frames)\<rparr>, Inl AttributeError)
     else (bp\<lparr>function_names := function_names bp \<union> set (names_read frames),
              stacks := stacks bp @ [names_read frames]\<rparr>, Inr False))"
  by (simp add: stop_def walk_frames_eq)

lemma function_names_captures:
  "function_names (captures evs bp) = function_names bp \<union> (\<Union>frames\<in>set evs. set (names_read frames))"
  by (induction evs arbitrary: bp) (auto simp: stop_eq)

lemma stacks_captures:
  "stacks (captures evs bp) = stacks bp @ map names_read (filter (\<lambda>frames. None \<notin> set frames) evs)"
  by (induction evs arbitrary: bp) (auto simp: stop_eq)

lemma name_captures: "name (captures evs bp) = name bp"
  by (induction evs arbitrary: bp) (auto simp: stop_eq)

lemma captures_append: "captures (evs @ evs') bp = captures evs' (captures evs bp)"
  by (induction evs arbitrary: bp) auto

lemma captures_consistent:
  "stack \<in> set (stacks (captures evs init)) \<Longrightarrow> set stack \<subseteq> function_names (captures evs init)"
  by (auto simp: stacks_captures function_names_captures init_def)

lemma stop_i_eq:
  "stop_i ls frames bp =
    (if None \<in> set frames
     then (bp\<lparr>function_names_i := function_names_i bp \<union> set (names_read frames)\<rparr>, Inl AttributeError)
     else (bp\<lparr>function_names_i := function_names_i bp \<union> set (names_read frames),
              stacks_and_locals := stacks_and_locals bp @ [(names_read frames, ls)]\<rparr>, Inr False))"
  by (simp add: stop_i_def walk_frames_eq)

lemma function_names_captures_i:
  "function_names_i (captures_i evs bp) =
    function_names_i bp \<union> (\<Union>ev\<in>set evs. set (names_read (snd ev)))"
  by (induction evs bp rule: captures_i.induct) (auto simp: stop_i_eq)

lemma stacks_captures_i:
  "stacks_and_locals (captures_i evs bp) =
    stacks_and_locals bp @ map (\<lambda>ev. (names_read (snd ev), fst ev)) (filter (\<lambda>ev. None \<notin> set (snd ev)) evs)"
  by (induction evs bp rule: captures_i.induct) (auto simp: stop_i_eq)

lemma name_captures_i: "name_i (captures_i evs bp) = name_i bp"
  by (induction evs bp rule: captures_i.induct) (auto simp: stop_i_eq)

lemma captures_i_consistent:
  "p \<in> set (stacks_and_locals (captures_i evs init_i)) \<Longrightarrow>
    set (fst p) \<subseteq> function_names_i (captures_i evs init_i)"
  by (auto simp: stacks_captures_i function_names_captures_i init_i_def)

lemma create_and_view_graph_ok:
  assumes "\<forall>stack\<in>set (stacks bp). set stack \<subseteq> set fnl"
  shows "create_and_view_graph fnl bp =
    Inr \<lparr>graph_name = name bp,
         node_stmts = add_nodes fnl,
         edge_stmts = edge_id fnl ` observed (stacks bp)\<rparr>"
  by (simp add: create_and_view_graph_def add_all_edges_ok[OF assms])

lemma observed_in_listing:
  assumes "\<forall>stack\<in>set sts. set stack \<subseteq> set fnl"
  shows "observed sts \<subseteq> set fnl \<times> set fnl"
  using assms adjacent_subset unfolding observed_def by fastforce

lemma card_edges:
  assumes "\<forall>stack\<in>set sts. set stack \<subseteq> set fnl"
  shows "card (edge_id fnl ` observed sts) = card (observed sts)"
  by (intro card_image inj_on_subset[OF edge_id_inj_on] observed_in_listing assms)

section \<open>Nodes, and the edges of the interactive graph\<close>

lemma map_fst_nodes_from:
  "map fst (map (\<lambda>(index, function_name). (str_nat index, function_name)) (enumerate k fnl))
    = map str_nat [k..<k + length fnl]"
proof (induction fnl arbitrary: k)
  case Nil
  then show ?case by simp
next
  case (Cons x fnl)
  have "k < k + length (x # fnl)" by simp
  then have "[k..<k + length (x # fnl)] = k # [Suc k..<k + length (x # fnl)]"
    by (rule upt_conv_Cons)
  then have "[k..<k + length (x # fnl)] = k # [Suc k..<Suc k + length fnl]"
    by simp
  with Cons[of "Suc k"] show ?case by simp
qed

lemma map_snd_nodes_from:
  "map snd (map (\<lambda>(index, function_name). (str_nat index, function_name)) (enumerate k fnl)) = fnl"
  by (induction fnl arbitrary: k) simp_all

lemma node_in_nodes_from:
  "i < length fnl \<Longrightarrow>
    (str_nat (k + i), fnl ! i) \<in> set (map (\<lambda>(index, function_name). (str_nat index, function_name)) (enumerate k fnl))"
proof (induction fnl arbitrary: k i)
  case Nil
  then show ?case by simp
next
  case (Cons x fnl)
  show ?case
  proof (cases i)
    case 0
    then show ?thesis by simp
  next
    case (Suc j)
    with Cons.prems have "j < length fnl" by simp
    from Cons.IH[OF this, of "Suc k"] Suc show ?thesis by simp
  qed
qed

lemma map_fst_add_nodes: "map fst (add_nodes fnl) = map str_nat [0..<length fnl]"
  unfolding add_nodes_def map_fst_nodes_from by simp

lemma map_snd_add_nodes: "map snd (add_nodes fnl) = fnl"
  unfolding add_nodes_def by (rule map_snd_nodes_from)

lemma distinct_node_ids: "distinct (map fst (add_nodes fnl))"
  unfolding map_fst_add_nodes
  by (simp add: distinct_map inj_on_def str_nat_inj)

lemma map_of_nodes:
  assumes "x \<in> set fnl"
  shows "map_of (add_nodes fnl) (node_id fnl x) = Some x"
proof -
  have "(str_nat (0 + index_of fnl x), fnl ! index_of fnl x) \<in> set (add_nodes fnl)"
    unfolding add_nodes_def using assms by (intro node_in_nodes_from index_of_less)
  then have "(node_id fnl x, x) \<in> set (add_nodes fnl)"
    using assms by (simp add: node_id_def nth_index_of)
  with distinct_node_ids show ?thesis
    by (rule map_of_is_SomeI)
qed

lemma add_stack_edges_i_ok:
  assumes "set stack \<subseteq> set fnl" "\<forall>i\<in>set is. i + 1 < length stack"
  shows "add_stack_edges_i fnl sel k stack is edges =
    Inr (edges \<union> (\<lambda>i. paint fnl sel k (stack ! (i + 1), stack ! i)) ` set is)"
  using assms(2)
proof (induction "is" arbitrary: edges)
  case Nil
  then show ?case by simp
next
  case (Cons i "is")
  from Cons.prems have "stack ! (i + 1) \<in> set fnl" "stack ! i \<in> set fnl"
    using assms(1) by (auto simp: subset_iff)
  then have "list_index fnl (stack ! (i + 1)) = Inr (index_of fnl (stack ! (i + 1)))"
    "list_index fnl (stack ! i) = Inr (index_of fnl (stack ! i))"
    by (simp_all add: list_index_found)
  moreover have "add_stack_edges_i fnl sel k stack is
      (insert (paint fnl sel k (stack ! (i + 1), stack ! i)) edges)
    = Inr (insert (paint fnl sel k (stack ! (i + 1), stack ! i)) edges
           \<union> (\<lambda>i. paint fnl sel k (stack ! (i + 1), stack ! i)) ` set is)"
    using Cons.prems by (intro Cons.IH) simp
  ultimately show ?case
    by (simp add: paint_def node_id_def)
qed

lemma add_stack_edges_i_adjacent:
  assumes "set stack \<subseteq> set fnl"
  shows "add_stack_edges_i fnl sel k stack (py_range (int (length stack) - 1)) edges =
    Inr (edges \<union> paint fnl sel k ` adjacent stack)"
proof -
  have "add_stack_edges_i fnl sel k stack (py_range (int (length stack) - 1)) edges =
    Inr (edges \<union> (\<lambda>i. paint fnl sel k (stack ! (i + 1), stack ! i))
                    ` set (py_range (int (length stack) - 1)))"
    using assms by (intro add_stack_edges_i_ok) (simp_all add: set_py_range)
  then show ?thesis
    by (simp add: set_py_range adjacent_nth image_image)
qed

lemma add_all_edges_i_ok:
  assumes "\<forall>p\<in>set ksts. set (fst (snd p)) \<subseteq> set fnl"
  shows "add_all_edges_i fnl sel ksts edges = Inr (edges \<union> painted fnl sel ksts)"
  using assms
proof (induction ksts arbitrary: edges)
  case Nil
  then show ?case by (simp add: painted_def)
next
  case (Cons p ksts)
  obtain k stack ls where p: "p = (k, stack, ls)" by (cases p)
  from Cons.prems p have "set stack \<subseteq> set fnl" by simp
  moreover have "painted fnl sel (p # ksts) = paint fnl sel k ` adjacent stack \<union> painted fnl sel ksts"
    by (simp add: painted_def p)
  ultimately show ?case
    using Cons by (simp add: p add_stack_edges_i_adjacent Un_assoc)
qed

lemma create_and_view_graph_i_ok:
  assumes "\<forall>p\<in>set (stacks_and_locals bp). set (fst p) \<subseteq> set fnl"
  shows "create_and_view_graph_i fnl sel bp =
    Inr \<lparr>graph_name_i = name_i bp,
         node_stmts_i = add_nodes fnl,
         edge_stmts_i = painted fnl sel (enumerate 0 (stacks_and_locals bp))\<rparr>"
proof -
  have "\<forall>p\<in>set (enumerate 0 (stacks_and_locals bp)). set (fst (snd p)) \<subseteq> set fnl"
  proof
    fix p assume "p \<in> set (enumerate 0 (stacks_and_locals bp))"
    then have "snd p \<in> set (stacks_and_locals bp)"
      by (simp add: in_set_enumerate_eq) (metis nth_mem)
    with assms show "set (fst (snd p)) \<subseteq> set fnl" by blast
  qed
  from add_all_edges_i_ok[OF this] show ?thesis
    by (simp add: create_and_view_graph_i_def)
qed

section \<open>Sessions and their graphs\<close>

lemma session_stacks_listed:
  assumes "listing (function_names (captures evs init)) fnl"
  shows "\<forall>stack\<in>set (stacks (captures evs init)). set stack \<subseteq> set fnl"
  using assms captures_consistent by (simp add: listing_def)

lemma add_all_edges_append:
  "add_all_edges fnl (xs @ ys) edges =
    (case add_all_edges fnl xs edges of Inl e \<Rightarrow> Inl e | Inr edges' \<Rightarrow> add_all_edges fnl ys edges')"
  by (induction xs arbitrary: edges) (auto split: sum.splits)

lemma short_stack_no_edges:
  "length stack < 2 \<Longrightarrow> add_stack_edges fnl stack (py_range (int (length stack) - 1)) edges = Inr edges"
  by (cases stack) (auto simp: py_range_def)

lemma index_of_image:
  assumes "distinct fnl"
  shows "index_of fnl ` set fnl = {0..<length fnl}"
proof
  show "index_of fnl ` set fnl \<subseteq> {0..<length fnl}"
    using index_of_less by fastforce
  show "{0..<length fnl} \<subseteq> index_of fnl ` set fnl"
  proof
    fix i assume "i \<in> {0..<length fnl}"
    then have "i < length fnl" by simp
    then have "index_of fnl (fnl ! i) = i" "fnl ! i \<in> set fnl"
      using assms by (simp_all add: index_of_nth)
    then show "i \<in> index_of fnl ` set fnl" by (metis imageI)
  qed
qed

lemma node_id_bij:
  assumes "distinct fnl"
  shows "bij_betw (node_id fnl) (set fnl) (set (map fst (add_nodes fnl)))"
proof -
  have "inj_on (node_id fnl) (set fnl)"
    unfolding inj_on_def node_id_def by (auto dest!: str_nat_inj dest: index_of_inj)
  moreover have "node_id fnl ` set fnl = str_nat ` {0..<length fnl}"
    using index_of_image[OF assms] unfolding node_id_def by (metis image_image)
  ultimately show ?thesis
    by (simp add: bij_betw_def map_fst_add_nodes)
qed

lemma listing_assigns_ids:
  assumes "listing s fnl"
  shows "assigns_ids (add_nodes fnl) fnl s"
proof -
  from assms have d: "distinct fnl" and s: "set fnl = s"
    by (simp_all add: listing_def)
  have "\<forall>x\<in>s. map_of (add_nodes fnl) (node_id fnl x) = Some x
      \<and> list_index fnl x = Inr (index_of fnl x)"
    using s by (auto simp: map_of_nodes list_index_found)
  moreover have "bij_betw (node_id fnl) s (set (map fst (add_nodes fnl)))"
    using node_id_bij[OF d] s by simp
  ultimately show ?thesis
    unfolding assigns_ids_def
    using d s by (simp add: map_snd_add_nodes map_fst_add_nodes distinct_node_ids[unfolded map_fst_add_nodes])
qed

lemma session_stacks_listed_i:
  assumes "listing (function_names_i (captures_i evs init_i)) fnl"
  shows "\<forall>p\<in>set (stacks_and_locals (captures_i evs init_i)). set (fst p) \<subseteq> set fnl"
  using assms captures_i_consistent by (simp add: listing_def)

lemma observed_Union: "observed sts = (\<Union>stack\<in>set sts. adjacent stack)"
  by (simp add: observed_def)

lemma painted_pairs:
  "(\<lambda>e. (fst e, fst (snd e))) ` painted fnl sel ksts
    = edge_id fnl ` observed (map (\<lambda>p. fst (snd p)) ksts)"
  unfolding painted_def observed_Union
  by (auto simp: paint_def edge_id_def image_iff split_def) force+

lemma painted_black:
  assumes "\<forall>p\<in>set ksts. \<not> py_is (fst p) sel"
  shows "painted fnl sel ksts
    = (\<lambda>e. (node_id fnl (fst e), node_id fnl (snd e), ''black''))
        ` observed (map (\<lambda>p. fst (snd p)) ksts)"
  using assms unfolding painted_def observed_Union
  by (auto simp: paint_def image_iff split_def)

lemma coloured_painted_red:
  "coloured ''red'' \<lparr>graph_name_i = n, node_stmts_i = ns, edge_stmts_i = painted fnl sel ksts\<rparr>
    = (\<Union>p\<in>{p \<in> set ksts. py_is (fst p) sel}. edge_id fnl ` adjacent (fst (snd p)))"
  unfolding painted_def coloured_def
  by (auto simp: paint_def edge_id_def image_iff split_def split: if_splits) force+

lemma stacks_of_enumerate: "map (\<lambda>p. fst (snd p)) (enumerate n xs) = map fst xs"
  by (induction xs arbitrary: n) simp_all

lemma py_is_None: "\<not> py_is k None"
  by (simp add: py_is_def)

lemma py_is_out_of_range: "k < 0 \<or> int n \<le> k \<Longrightarrow> i < n \<Longrightarrow> \<not> py_is i (Some k)"
  by (auto simp: py_is_def)

lemma no_match_is_black:
  assumes "\<forall>p\<in>set (stacks_and_locals bp). set (fst p) \<subseteq> set fnl"
    and "\<forall>i<length (stacks_and_locals bp). \<not> py_is i sel"
  shows "create_and_view_graph_i fnl sel bp =
    Inr \<lparr>graph_name_i = name_i bp, node_stmts_i = add_nodes fnl,
         edge_stmts_i = (\<lambda>e. (node_id fnl (fst e), node_id fnl (snd e), ''black''))
                          ` observed (map fst (stacks_and_locals bp))\<rparr>"
proof -
  have "\<forall>p\<in>set (enumerate 0 (stacks_and_locals bp)). \<not> py_is (fst p) sel"
    using assms(2) by (auto simp: in_set_enumerate_eq)
  from painted_black[OF this] show ?thesis
    by (simp add: create_and_view_graph_i_ok[OF assms(1)] stacks_of_enumerate)
qed

lemma coloured_red_black_only:
  "coloured ''red'' \<lparr>graph_name_i = n, node_stmts_i = ns,
       edge_stmts_i = (\<lambda>e. (f e, g e, ''black'')) ` s\<rparr> = {}"
  by (auto simp: coloured_def)

lemmas run_defs = listing_def stop_def stop_i_def init_def init_i_def tidy_def tidy_prefixes_def
  strip_groups_def create_and_view_graph_def create_and_view_graph_i_def py_range_def
  add_nodes_def str_nat.simps digit_char_def py_is_def upt_rec

lemma selected_of_enumerate:
  assumes "k < length xs" "k \<le> 256"
  shows "{p \<in> set (enumerate 0 xs). py_is (fst p) (Some (int k))} = {(k, xs ! k)}"
  using assms by (auto simp: in_set_enumerate_eq py_is_def)

lemma highlight_small_index:
  assumes "listing (function_names_i (captures_i evs init_i)) fnl"
    and "k < length (stacks_and_locals (captures_i evs init_i))" and "k \<le> 256"
  shows "\<exists>g. create_and_view_graph_i fnl (Some (int k)) (captures_i evs init_i) = Inr g
    \<and> coloured ''red'' g = edge_id fnl ` adjacent (fst (stacks_and_locals (captures_i evs init_i) ! k))"
proof -
  note l = session_stacks_listed_i[OF assms(1)]
  show ?thesis
    unfolding create_and_view_graph_i_ok[OF l]
    by (simp add: coloured_painted_red selected_of_enumerate[OF assms(2,3)])
qed

lemma replicated_session:
  "stacks_and_locals (captures_i (replicate 258 ([], [Some ''f0'', Some ''f1'', Some ''f2''])) init_i)
     = replicate 258 ([''f0'', ''f1'', ''f2''], [])"
  "function_names_i (captures_i (replicate 258 ([], [Some ''f0'', Some ''f1'', Some ''f2''])) init_i)
     = {''f0'', ''f1'', ''f2''}"
  "name_i (captures_i (replicate 258 ([], [Some ''f0'', Some ''f1'', Some ''f2''])) init_i)
     = ''array-c-bridge-test''"
  by (auto simp: stacks_captures_i function_names_captures_i name_captures_i init_i_def
      tidy_def tidy_prefixes_def strip_groups_def)

lemma observed_cong: "set sts = set sts' \<Longrightarrow> observed sts = observed sts'"
  by (simp add: observed_Union)

lemma recapture_names:
  "frames \<in> set evs \<Longrightarrow>
    function_names (captures (evs @ [frames]) bp) = function_names (captures evs bp)"
  by (auto simp: function_names_captures)

lemma recapture_stacks:
  "frames \<in> set evs \<Longrightarrow>
    set (stacks (captures (evs @ [frames]) bp)) = set (stacks (captures evs bp))"
  by (auto simp: stacks_captures)

lemma recapture_names_i:
  "ev \<in> set evs \<Longrightarrow>
    function_names_i (captures_i (evs @ [ev]) bp) = function_names_i (captures_i evs bp)"
  by (auto simp: function_names_captures_i)

lemma recapture_stacks_i:
  "ev \<in> set evs \<Longrightarrow>
    set (map fst (stacks_and_locals (captures_i (evs @ [ev]) bp)))
      = set (map fst (stacks_and_locals (captures_i evs bp)))"
  by (auto simp: stacks_captures_i)

lemma black_inj_on:
  "inj_on (\<lambda>e. (node_id fnl (fst e), node_id fnl (snd e), ''black'')) (set fnl \<times> set fnl)"
  unfolding inj_on_def node_id_def
  by (auto dest!: str_nat_inj dest: index_of_inj)

lemma session_graph:
  assumes "listing (function_names (captures evs init)) fnl"
  shows "create_and_view_graph fnl (captures evs init) =
      Inr \<lparr>graph_name = ''breakpoint_location'', node_stmts = add_nodes fnl,
           edge_stmts = edge_id fnl ` observed (stacks (captures evs init))\<rparr>"
  using create_and_view_graph_ok[OF session_stacks_listed[OF assms]]
  by (simp add: name_captures init_def)

lemma session_graph_i:
  assumes "listing (function_names_i (captures_i evs init_i)) fnl"
  shows "create_and_view_graph_i fnl sel (captures_i evs init_i) =
      Inr \<lparr>graph_name_i = ''array-c-bridge-test'', node_stmts_i = add_nodes fnl,
           edge_stmts_i = painted fnl sel (enumerate 0 (stacks_and_locals (captures_i evs init_i)))\<rparr>"
  using create_and_view_graph_i_ok[OF session_stacks_listed_i[OF assms]]
  by (simp add: name_captures_i init_i_def)

lemma session_graph_i_None:
  assumes "listing (function_names_i (captures_i evs init_i)) fnl"
  shows "create_and_view_graph_i fnl None (captures_i evs init_i) =
      Inr \<lparr>graph_name_i = ''array-c-bridge-test'', node_stmts_i = add_nodes fnl,
           edge_stmts_i = (\<lambda>e. (node_id fnl (fst e), node_id fnl (snd e), ''black''))
                          ` observed (map fst (stacks_and_locals (captures_i evs init_i)))\<rparr>"
  using no_match_is_black[OF session_stacks_listed_i[OF assms], of None]
  by (simp add: name_captures_i init_i_def py_is_None)

lemma observed_listed_i:
  assumes "listing (function_names_i (captures_i evs init_i)) fnl"
  shows "observed (map fst (stacks_and_locals (captures_i evs init_i))) \<subseteq> set fnl \<times> set fnl"
  using session_stacks_listed_i[OF assms] by (intro observed_in_listing) simp

lemma labelled_edges_graph:
  assumes "es \<subseteq> set fnl \<times> set fnl"
  shows "labelled_edges \<lparr>graph_name = n, node_stmts = add_nodes fnl, edge_stmts = edge_id fnl ` es\<rparr>
    = (\<lambda>e. (Some (fst e), Some (snd e))) ` es"
proof -
  have "(map_of (add_nodes fnl) (fst (edge_id fnl e)), map_of (add_nodes fnl) (snd (edge_id fnl e)))
      = (Some (fst e), Some (snd e))" if "e \<in> es" for e
  proof -
    from that assms have "e \<in> set fnl \<times> set fnl" by blast
    then have "fst e \<in> set fnl" "snd e \<in> set fnl"
      by (simp_all add: mem_Times_iff)
    then show ?thesis by (simp add: edge_id_def map_of_nodes)
  qed
  then have "(\<lambda>e. (map_of (add_nodes fnl) (fst (edge_id fnl e)), map_of (add_nodes fnl) (snd (edge_id fnl e)))) ` es
      = (\<lambda>e. (Some (fst e), Some (snd e))) ` es"
    by (intro image_cong refl)
  then show ?thesis
    unfolding labelled_edges_def by (simp add: image_image)
qed

lemma permuted_names:
  assumes "mset evs' = mset evs"
  shows "function_names (captures evs' bp) = function_names (captures evs bp)"
  using mset_eq_setD[OF assms] by (simp add: function_names_captures)

lemma permuted_stacks:
  assumes "mset evs' = mset evs"
  shows "set (stacks (captures evs' bp)) = set (stacks (captures evs bp))"
  using mset_eq_setD[OF assms] by (simp add: stacks_captures)

lemma finite_adjacent: "finite (adjacent stack)"
  by (simp add: adjacent_def)

lemma finite_observed: "finite (observed sts)"
  by (simp add: observed_Union finite_adjacent)

lemma red_inj_on:
  "inj_on (\<lambda>e. (node_id fnl (fst e), node_id fnl (snd e), ''red'')) (set fnl \<times> set fnl)"
  unfolding inj_on_def node_id_def
  by (auto dest!: str_nat_inj dest: index_of_inj)

lemma set_enumerate_nth: "set (enumerate 0 xs) = (\<lambda>i. (i, xs ! i)) ` {..<length xs}"
  by (auto simp: in_set_enumerate_eq image_iff)

lemma painted_by_index:
  "painted fnl sel (enumerate 0 xs)
    = (\<Union>i\<in>{..<length xs}. paint fnl sel i ` adjacent (fst (xs ! i)))"
  unfolding painted_def set_enumerate_nth by (simp add: split_def)

lemma others_by_index:
  assumes "k < length xs"
  shows "set (take k xs @ drop (Suc k) xs) = (\<lambda>i. xs ! i) ` ({..<length xs} - {k})"
proof
  show "set (take k xs @ drop (Suc k) xs) \<subseteq> (\<lambda>i. xs ! i) ` ({..<length xs} - {k})"
  proof
    fix x assume "x \<in> set (take k xs @ drop (Suc k) xs)"
    then consider "x \<in> set (take k xs)" | "x \<in> set (drop (Suc k) xs)" by auto
    then show "x \<in> (\<lambda>i. xs ! i) ` ({..<length xs} - {k})"
    proof cases
      case 1
      then obtain i where "i < length (take k xs)" "take k xs ! i = x"
        by (auto simp: in_set_conv_nth)
      with assms have "i < length xs" "i \<noteq> k" "xs ! i = x" by simp_all
      then show ?thesis by blast
    next
      case 2
      then obtain i where i: "i < length (drop (Suc k) xs)" "drop (Suc k) xs ! i = x"
        by (auto simp: in_set_conv_nth)
      then have "Suc k + i < length xs" "Suc k + i \<noteq> k" "xs ! (Suc k + i) = x" by simp_all
      then show ?thesis by blast
    qed
  qed
  show "(\<lambda>i. xs ! i) ` ({..<length xs} - {k}) \<subseteq> set (take k xs @ drop (Suc k) xs)"
  proof
    fix x assume "x \<in> (\<lambda>i. xs ! i) ` ({..<length xs} - {k})"
    then obtain i where i: "i < length xs" "i \<noteq> k" "x = xs ! i" by auto
    show "x \<in> set (take k xs @ drop (Suc k) xs)"
    proof (cases "i < k")
      case True
      with i assms have "take k xs ! i = x" "i < length (take k xs)" by simp_all
      then have "x \<in> set (take k xs)" by (metis nth_mem)
      then show ?thesis by simp
    next
      case False
      with i have "Suc k \<le> i" by simp
      then obtain j where j: "i = Suc k + j" by (metis le_Suc_ex)
      with i have "drop (Suc k) xs ! j = x" "j < length (drop (Suc k) xs)" by simp_all
      then have "x \<in> set (drop (Suc k) xs)" by (metis nth_mem)
      then show ?thesis by simp
    qed
  qed
qed

lemma painted_selected:
  assumes "k < length xs" "k \<le> 256"
  shows "painted fnl (Some (int k)) (enumerate 0 xs)
    = (\<lambda>e. (node_id fnl (fst e), node_id fnl (snd e), ''red'')) ` adjacent (fst (xs ! k))
      \<union> (\<lambda>e. (node_id fnl (fst e), node_id fnl (snd e), ''black''))
          ` observed (map fst (take k xs @ drop (Suc k) xs))"
proof -
  have is_k: "py_is i (Some (int k)) \<longleftrightarrow> i = k" for i
    using assms(2) by (auto simp: py_is_def)
  have split: "(\<Union>i\<in>{..<length xs}. F i) = F k \<union> (\<Union>i\<in>{..<length xs} - {k}. F i)"
    for F :: "nat \<Rightarrow> (string \<times> string \<times> string) set"
    using assms(1) by blast
  have "painted fnl (Some (int k)) (enumerate 0 xs)
      = paint fnl (Some (int k)) k ` adjacent (fst (xs ! k))
        \<union> (\<Union>i\<in>{..<length xs} - {k}. paint fnl (Some (int k)) i ` adjacent (fst (xs ! i)))"
    unfolding painted_by_index by (rule split)
  also have "paint fnl (Some (int k)) k ` adjacent (fst (xs ! k))
      = (\<lambda>e. (node_id fnl (fst e), node_id fnl (snd e), ''red'')) ` adjacent (fst (xs ! k))"
    by (intro image_cong refl) (simp add: paint_def is_k)
  also have "(\<Union>i\<in>{..<length xs} - {k}. paint fnl (Some (int k)) i ` adjacent (fst (xs ! i)))
      = (\<Union>i\<in>{..<length xs} - {k}.
          (\<lambda>e. (node_id fnl (fst e), node_id fnl (snd e), ''black'')) ` adjacent (fst (xs ! i)))"
    by (intro SUP_cong refl image_cong) (simp add: paint_def is_k)
  also have "\<dots> = (\<lambda>e. (node_id fnl (fst e), node_id fnl (snd e), ''black''))
          ` observed (map fst (take k xs @ drop (Suc k) xs))"
    unfolding observed_Union set_map others_by_index[OF assms(1)]
    by (simp add: image_UN image_image)
  finally show ?thesis .
qed

lemma observed_selected_others:
  assumes "k < length xs"
  shows "observed (map fst xs)
    = adjacent (fst (xs ! k)) \<union> observed (map fst (take k xs @ drop (Suc k) xs))"
proof -
  have "xs = take k xs @ xs ! k # drop (Suc k) xs"
    using assms by (rule id_take_nth_drop)
  then have "set xs = insert (xs ! k) (set (take k xs @ drop (Suc k) xs))"
    by (metis list.simps(15) set_append Un_insert_right)
  then have "set (map fst xs) = insert (fst (xs ! k)) (set (map fst (take k xs @ drop (Suc k) xs)))"
    by (simp only: set_map image_insert)
  then show ?thesis
    unfolding observed_Union by simp
qed

lemma coloured_red_union:
  "coloured ''red'' \<lparr>graph_name_i = n, node_stmts_i = ns,
      edge_stmts_i = (\<lambda>e. (f e, g e, ''red'')) ` a \<union> (\<lambda>e. (f e, g e, ''black'')) ` b\<rparr>
    = (\<lambda>e. (f e, g e)) ` a"
  by (auto simp: coloured_def image_iff)

lemma coloured_black_union:
  "coloured ''black'' \<lparr>graph_name_i = n, node_stmts_i = ns,
      edge_stmts_i = (\<lambda>e. (f e, g e, ''red'')) ` a \<union> (\<lambda>e. (f e, g e, ''black'')) ` b\<rparr>
    = (\<lambda>e. (f e, g e)) ` b"
  by (auto simp: coloured_def image_iff)

lemma selected_graph:
  assumes "listing (function_names_i (captures_i evs init_i)) fnl"
    and "k < length (stacks_and_locals (captures_i evs init_i))" and "k \<le> 256"
  shows "\<exists>g. create_and_view_graph_i fnl (Some (int k)) (captures_i evs init_i) = Inr g
    \<and> coloured ''red'' g
        = edge_id fnl ` adjacent (fst (stacks_and_locals (captures_i evs init_i) ! k))
    \<and> coloured ''black'' g
        = edge_id fnl ` observed (map fst (take k (stacks_and_locals (captures_i evs init_i))
                                            @ drop (Suc k) (stacks_and_locals (captures_i evs init_i))))
    \<and> card (edge_stmts_i g)
        = card (observed (map fst (stacks_and_locals (captures_i evs init_i))))
          + card (adjacent (fst (stacks_and_locals (captures_i evs init_i) ! k))
                  \<inter> observed (map fst (take k (stacks_and_locals (captures_i evs init_i))
                                            @ drop (Suc k) (stacks_and_locals (captures_i evs init_i)))))"
proof -
  let ?xs = "stacks_and_locals (captures_i evs init_i)"
  let ?A = "adjacent (fst (?xs ! k))"
  let ?O = "observed (map fst (take k ?xs @ drop (Suc k) ?xs))"
  let ?red = "\<lambda>e. (node_id fnl (fst e), node_id fnl (snd e), ''red'')"
  let ?black = "\<lambda>e. (node_id fnl (fst e), node_id fnl (snd e), ''black'')"
  let ?g = "\<lparr>graph_name_i = ''array-c-bridge-test'', node_stmts_i = add_nodes fnl,
            edge_stmts_i = ?red ` ?A \<union> ?black ` ?O\<rparr>"
  have g: "create_and_view_graph_i fnl (Some (int k)) (captures_i evs init_i) = Inr ?g"
    unfolding session_graph_i[OF assms(1)] painted_selected[OF assms(2,3)] by (rule refl)
  have all: "observed (map fst ?xs) = ?A \<union> ?O"
    using assms(2) by (rule observed_selected_others)
  have sub: "?A \<union> ?O \<subseteq> set fnl \<times> set fnl"
    using observed_listed_i[OF assms(1)] unfolding all .
  have cr: "card (?red ` ?A) = card ?A"
    using sub by (intro card_image inj_on_subset[OF red_inj_on]) blast
  have cb: "card (?black ` ?O) = card ?O"
    using sub by (intro card_image inj_on_subset[OF black_inj_on]) blast
  have "?red ` ?A \<inter> ?black ` ?O = {}" by auto
  then have "card (?red ` ?A \<union> ?black ` ?O) = card (?red ` ?A) + card (?black ` ?O)"
    by (intro card_Un_disjoint finite_imageI finite_adjacent finite_observed)
  also have "\<dots> = card ?A + card ?O" by (simp only: cr cb)
  also have "\<dots> = card (?A \<union> ?O) + card (?A \<inter> ?O)"
    by (intro card_Un_Int finite_adjacent finite_observed)
  finally have c: "card (edge_stmts_i ?g) = card (observed (map fst ?xs)) + card (?A \<inter> ?O)"
    by (simp add: all)
  have r: "coloured ''red'' ?g = edge_id fnl ` ?A"
    unfolding coloured_red_union by (intro image_cong refl) (simp add: edge_id_def)
  have b: "coloured ''black'' ?g = edge_id fnl ` ?O"
    unfolding coloured_black_union by (intro image_cong refl) (simp add: edge_id_def)
  from g r b c show ?thesis by (intro exI[of _ ?g] conjI)
qed

section \<open>Claims about the call graph\<close>

text \<open>
  Claim C1, as stated (the number of edges equals the number of distinct adjacencies
  whichever trace is selected), fails in the interactive script: its set holds triples
  (caller, callee, colour), one colour for the selected trace and one for the others. With
  the same trace captured twice and the first one selected, each of the two distinct
  adjacencies is written twice, once red and once black: the graph has four edges.
\<close>

theorem selected_trace_doubles_edges:
  "listing (function_names_i (captures_i [([], [Some ''c'', Some ''b'', Some ''a'']),
                  ([], [Some ''c'', Some ''b'', Some ''a''])] init_i)) [''c'', ''b'', ''a'']
   \<and> create_and_view_graph_i [''c'', ''b'', ''a''] (Some 0)
     (captures_i [([], [Some ''c'', Some ''b'', Some ''a'']),
                  ([], [Some ''c'', Some ''b'', Some ''a''])] init_i)
   = Inr \<lparr>graph_name_i = ''array-c-bridge-test'',
          node_stmts_i = [(''0'', ''c''), (''1'', ''b''), (''2'', ''a'')],
          edge_stmts_i = {(''1'', ''0'', ''red''), (''2'', ''1'', ''red''),
                          (''1'', ''0'', ''black''), (''2'', ''1'', ''black'')}\<rparr>
   \<and> card {(''1'', ''0'', ''red''), (''2'', ''1'', ''red''),
            (''1'', ''0'', ''black''), (''2'', ''1'', ''black'')} = 4
   \<and> observed (map fst (stacks_and_locals (captures_i [([], [Some ''c'', Some ''b'', Some ''a'']),
                  ([], [Some ''c'', Some ''b'', Some ''a''])] init_i)))
       = {(''b'', ''c''), (''a'', ''b'')}
   \<and> card {(''b'', ''c''), (''a'', ''b'')} = 2"
  by (auto simp: run_defs observed_def adjacent_def)

text \<open>
  Claim C1, amended. In the script without highlighting, and in the interactive script when
  no trace is selected: the node statements have distinct identifiers and distinct labels,
  the number of edge statements is the number of distinct adjacencies observed across all
  traces, and capturing again a frame chain already captured leaves the names and the graph
  as they are. In the interactive script with any selection, the (caller, callee) pairs of
  the edge statements are exactly the identifiers of the distinct adjacencies, as many as
  there are distinct adjacencies. When the trace of an index \<open>k\<close> up to 256 is selected,
  the red edges are exactly the adjacencies of that trace and the black edges exactly the
  adjacencies of the other traces: the number of edge statements is the number of distinct
  adjacencies plus the number of adjacencies that the selected trace shares with another
  trace, each of which is written twice, once red and once black.
\<close>

theorem edges_have_set_semantics:
  assumes "listing (function_names (captures evs init)) fnl"
    and "listing (function_names_i (captures_i evs_i init_i)) fnl_i"
  shows "(\<exists>g. create_and_view_graph fnl (captures evs init) = Inr g
            \<and> distinct (map fst (node_stmts g)) \<and> distinct (map snd (node_stmts g))
            \<and> card (edge_stmts g) = card (observed (stacks (captures evs init)))
            \<and> (\<forall>frames\<in>set evs.
                  function_names (captures (evs @ [frames]) init) = function_names (captures evs init)
                  \<and> create_and_view_graph fnl (captures (evs @ [frames]) init) = Inr g))
       \<and> (\<exists>g. create_and_view_graph_i fnl_i None (captures_i evs_i init_i) = Inr g
            \<and> distinct (map fst (node_stmts_i g)) \<and> distinct (map snd (node_stmts_i g))
            \<and> card (edge_stmts_i g)
                = card (observed (map fst (stacks_and_locals (captures_i evs_i init_i))))
            \<and> (\<forall>ev\<in>set evs_i.
                  function_names_i (captures_i (evs_i @ [ev]) init_i)
                    = function_names_i (captures_i evs_i init_i)
                  \<and> create_and_view_graph_i fnl_i None (captures_i (evs_i @ [ev]) init_i) = Inr g))
       \<and> (\<exists>g. create_and_view_graph_i fnl_i sel (captures_i evs_i init_i) = Inr g
            \<and> (\<lambda>e. (fst e, fst (snd e))) ` edge_stmts_i g
                = edge_id fnl_i ` observed (map fst (stacks_and_locals (captures_i evs_i init_i)))
            \<and> card ((\<lambda>e. (fst e, fst (snd e))) ` edge_stmts_i g)
                = card (observed (map fst (stacks_and_locals (captures_i evs_i init_i)))))
       \<and> (\<forall>k. k < length (stacks_and_locals (captures_i evs_i init_i)) \<and> k \<le> 256 \<longrightarrow>
            (\<exists>g. create_and_view_graph_i fnl_i (Some (int k)) (captures_i evs_i init_i) = Inr g
              \<and> coloured ''red'' g
                  = edge_id fnl_i ` adjacent (fst (stacks_and_locals (captures_i evs_i init_i) ! k))
              \<and> coloured ''black'' g
                  = edge_id fnl_i ` observed (map fst
                      (take k (stacks_and_locals (captures_i evs_i init_i))
                       @ drop (Suc k) (stacks_and_locals (captures_i evs_i init_i))))
              \<and> card (edge_stmts_i g)
                  = card (observed (map fst (stacks_and_locals (captures_i evs_i init_i))))
                    + card (adjacent (fst (stacks_and_locals (captures_i evs_i init_i) ! k))
                            \<inter> observed (map fst
                                (take k (stacks_and_locals (captures_i evs_i init_i))
                                 @ drop (Suc k) (stacks_and_locals (captures_i evs_i init_i)))))))"
proof (intro conjI)
  let ?g = "\<lparr>graph_name = ''breakpoint_location'', node_stmts = add_nodes fnl,
           edge_stmts = edge_id fnl ` observed (stacks (captures evs init))\<rparr>"
  have d: "distinct fnl" using assms(1) by (simp add: listing_def)
  have c: "card (edge_id fnl ` observed (stacks (captures evs init)))
      = card (observed (stacks (captures evs init)))"
    by (intro card_edges session_stacks_listed assms(1))
  have r: "function_names (captures (evs @ [frames]) init) = function_names (captures evs init)
      \<and> create_and_view_graph fnl (captures (evs @ [frames]) init) = Inr ?g"
    if "frames \<in> set evs" for frames
  proof -
    have n: "function_names (captures (evs @ [frames]) init) = function_names (captures evs init)"
      using that by (rule recapture_names)
    with assms(1) have "listing (function_names (captures (evs @ [frames]) init)) fnl" by simp
    from session_graph[OF this] observed_cong[OF recapture_stacks[OF that, of init]] n
    show ?thesis by simp
  qed
  show "\<exists>g. create_and_view_graph fnl (captures evs init) = Inr g
            \<and> distinct (map fst (node_stmts g)) \<and> distinct (map snd (node_stmts g))
            \<and> card (edge_stmts g) = card (observed (stacks (captures evs init)))
            \<and> (\<forall>frames\<in>set evs.
                  function_names (captures (evs @ [frames]) init) = function_names (captures evs init)
                  \<and> create_and_view_graph fnl (captures (evs @ [frames]) init) = Inr g)"
    using session_graph[OF assms(1)] d c r
    by (intro exI[of _ ?g]) (simp add: distinct_node_ids map_snd_add_nodes)
next
  let ?o = "observed (map fst (stacks_and_locals (captures_i evs_i init_i)))"
  let ?g = "\<lparr>graph_name_i = ''array-c-bridge-test'', node_stmts_i = add_nodes fnl_i,
           edge_stmts_i = (\<lambda>e. (node_id fnl_i (fst e), node_id fnl_i (snd e), ''black'')) ` ?o\<rparr>"
  have d: "distinct fnl_i" using assms(2) by (simp add: listing_def)
  have c: "card ((\<lambda>e. (node_id fnl_i (fst e), node_id fnl_i (snd e), ''black'')) ` ?o) = card ?o"
    by (intro card_image inj_on_subset[OF black_inj_on] observed_listed_i assms(2))
  have r: "function_names_i (captures_i (evs_i @ [ev]) init_i)
                    = function_names_i (captures_i evs_i init_i)
      \<and> create_and_view_graph_i fnl_i None (captures_i (evs_i @ [ev]) init_i) = Inr ?g"
    if "ev \<in> set evs_i" for ev
  proof -
    have n: "function_names_i (captures_i (evs_i @ [ev]) init_i)
        = function_names_i (captures_i evs_i init_i)"
      using that by (rule recapture_names_i)
    with assms(2) have "listing (function_names_i (captures_i (evs_i @ [ev]) init_i)) fnl_i" by simp
    from session_graph_i_None[OF this] observed_cong[OF recapture_stacks_i[OF that, of init_i]] n
    show ?thesis by simp
  qed
  show "\<exists>g. create_and_view_graph_i fnl_i None (captures_i evs_i init_i) = Inr g
            \<and> distinct (map fst (node_stmts_i g)) \<and> distinct (map snd (node_stmts_i g))
            \<and> card (edge_stmts_i g) = card ?o
            \<and> (\<forall>ev\<in>set evs_i.
                  function_names_i (captures_i (evs_i @ [ev]) init_i)
                    = function_names_i (captures_i evs_i init_i)
                  \<and> create_and_view_graph_i fnl_i None (captures_i (evs_i @ [ev]) init_i) = Inr g)"
    using session_graph_i_None[OF assms(2)] d c r
    by (intro exI[of _ ?g]) (simp add: distinct_node_ids map_snd_add_nodes)
next
  let ?o = "observed (map fst (stacks_and_locals (captures_i evs_i init_i)))"
  have p: "(\<lambda>e. (fst e, fst (snd e)))
        ` painted fnl_i sel (enumerate 0 (stacks_and_locals (captures_i evs_i init_i)))
      = edge_id fnl_i ` ?o"
    by (simp add: painted_pairs stacks_of_enumerate)
  have "card (edge_id fnl_i ` ?o) = card ?o"
    by (intro card_image inj_on_subset[OF edge_id_inj_on] observed_listed_i assms(2))
  with p show "\<exists>g. create_and_view_graph_i fnl_i sel (captures_i evs_i init_i) = Inr g
            \<and> (\<lambda>e. (fst e, fst (snd e))) ` edge_stmts_i g = edge_id fnl_i ` ?o
            \<and> card ((\<lambda>e. (fst e, fst (snd e))) ` edge_stmts_i g) = card ?o"
    unfolding session_graph_i[OF assms(2)] by simp
next
  show "(\<forall>k. k < length (stacks_and_locals (captures_i evs_i init_i)) \<and> k \<le> 256 \<longrightarrow>
            (\<exists>g. create_and_view_graph_i fnl_i (Some (int k)) (captures_i evs_i init_i) = Inr g
              \<and> coloured ''red'' g
                  = edge_id fnl_i ` adjacent (fst (stacks_and_locals (captures_i evs_i init_i) ! k))
              \<and> coloured ''black'' g
                  = edge_id fnl_i ` observed (map fst
                      (take k (stacks_and_locals (captures_i evs_i init_i))
                       @ drop (Suc k) (stacks_and_locals (captures_i evs_i init_i))))
              \<and> card (edge_stmts_i g)
                  = card (observed (map fst (stacks_and_locals (captures_i evs_i init_i))))
                    + card (adjacent (fst (stacks_and_locals (captures_i evs_i init_i) ! k))
                            \<inter> observed (map fst
                                (take k (stacks_and_locals (captures_i evs_i init_i))
                                 @ drop (Suc k) (stacks_and_locals (captures_i evs_i init_i)))))))"
    using selected_graph[OF assms(2)] by blast
qed

theorem edges_have_set_semantics_witness:
  "listing (function_names (captures [[Some ''f'', Some ''main''], [Some ''f'', Some ''main'']] init))
      [''main'', ''f'']
   \<and> listing (function_names_i (captures_i
        [([], [Some ''f'', Some ''main'']), ([], [Some ''f'', Some ''main''])] init_i)) [''f'', ''main'']
   \<and> [Some ''f'', Some ''main''] \<in> set [[Some ''f'', Some ''main''], [Some ''f'', Some ''main'']]
   \<and> 0 < length (stacks_and_locals (captures_i
        [([], [Some ''f'', Some ''main'']), ([], [Some ''f'', Some ''main''])] init_i))
   \<and> (0::nat) \<le> 256
   \<and> (\<exists>g. create_and_view_graph [''main'', ''f'']
              (captures [[Some ''f'', Some ''main''], [Some ''f'', Some ''main'']] init) = Inr g
          \<and> card (edge_stmts g) = 1
          \<and> create_and_view_graph [''main'', ''f'']
              (captures ([[Some ''f'', Some ''main''], [Some ''f'', Some ''main'']]
                           @ [[Some ''f'', Some ''main'']]) init) = Inr g)
   \<and> (\<exists>g. create_and_view_graph_i [''f'', ''main''] (Some 0) (captures_i
              [([], [Some ''f'', Some ''main'']), ([], [Some ''f'', Some ''main''])] init_i) = Inr g
          \<and> coloured ''red'' g = {(''1'', ''0'')} \<and> coloured ''black'' g = {(''1'', ''0'')}
          \<and> card (edge_stmts_i g) = 2)"
proof -
  let ?evs = "[[Some ''f'', Some ''main''], [Some ''f'', Some ''main'']]"
  let ?evs_i = "[([], [Some ''f'', Some ''main'']), ([], [Some ''f'', Some ''main''])]"
  let ?xs = "stacks_and_locals (captures_i ?evs_i init_i)"
  have h1: "listing (function_names (captures ?evs init)) [''main'', ''f'']"
    by (auto simp: run_defs)
  have h2: "listing (function_names_i (captures_i ?evs_i init_i)) [''f'', ''main'']"
    by (auto simp: run_defs)
  have m: "[Some ''f'', Some ''main''] \<in> set ?evs" by simp
  have s: "?xs = [([''f'', ''main''], []), ([''f'', ''main''], [])]"
    by (simp add: run_defs)
  have k1: "0 < length ?xs" unfolding s by simp
  have k2: "(0::nat) \<le> 256" by simp
  have o: "card (observed (stacks (captures ?evs init))) = 1"
    by (simp add: run_defs observed_def adjacent_def)
  note w = edges_have_set_semantics[OF h1 h2, of None]
  from w[THEN conjunct1] obtain g where
    gg: "create_and_view_graph [''main'', ''f''] (captures ?evs init) = Inr g
        \<and> distinct (map fst (node_stmts g)) \<and> distinct (map snd (node_stmts g))
        \<and> card (edge_stmts g) = card (observed (stacks (captures ?evs init)))
        \<and> (\<forall>frames\<in>set ?evs.
              function_names (captures (?evs @ [frames]) init) = function_names (captures ?evs init)
              \<and> create_and_view_graph [''main'', ''f''] (captures (?evs @ [frames]) init) = Inr g)" ..
  note g1 = gg[THEN conjunct1]
  have gc: "card (edge_stmts g) = 1"
    using gg[THEN conjunct2, THEN conjunct2, THEN conjunct2, THEN conjunct1] o by (rule trans)
  have g3: "create_and_view_graph [''main'', ''f'']
      (captures (?evs @ [[Some ''f'', Some ''main'']]) init) = Inr g"
    using gg[THEN conjunct2, THEN conjunct2, THEN conjunct2, THEN conjunct2, THEN bspec, OF m]
    by (rule conjunct2)
  from k1 k2 have "0 < length ?xs \<and> (0::nat) \<le> 256" ..
  from w[THEN conjunct2, THEN conjunct2, THEN conjunct2, THEN spec, of 0, THEN mp, OF this]
  obtain g' where
    gg': "create_and_view_graph_i [''f'', ''main''] (Some (int 0)) (captures_i ?evs_i init_i) = Inr g'
        \<and> coloured ''red'' g' = edge_id [''f'', ''main''] ` adjacent (fst (?xs ! 0))
        \<and> coloured ''black'' g'
            = edge_id [''f'', ''main''] ` observed (map fst (take 0 ?xs @ drop (Suc 0) ?xs))
        \<and> card (edge_stmts_i g')
            = card (observed (map fst ?xs))
              + card (adjacent (fst (?xs ! 0))
                      \<inter> observed (map fst (take 0 ?xs @ drop (Suc 0) ?xs)))" ..
  have e: "edge_id [''f'', ''main''] (''main'', ''f'') = (''1'', ''0'')"
    by (simp add: edge_id_def node_id_def index_of_def str_nat.simps digit_char_def)
  have g1': "create_and_view_graph_i [''f'', ''main''] (Some 0) (captures_i ?evs_i init_i) = Inr g'"
    using gg'[THEN conjunct1] by (simp only: of_nat_0)
  have r: "coloured ''red'' g' = {(''1'', ''0'')}"
    using gg'[THEN conjunct2, THEN conjunct1] unfolding s by (simp add: adjacent_def e)
  have b: "coloured ''black'' g' = {(''1'', ''0'')}"
    using gg'[THEN conjunct2, THEN conjunct2, THEN conjunct1] unfolding s
    by (simp add: observed_def adjacent_def e)
  have c: "card (edge_stmts_i g') = 2"
    using gg'[THEN conjunct2, THEN conjunct2, THEN conjunct2] unfolding s
    by (simp add: observed_def adjacent_def)
  show ?thesis
    by (intro conjI exI[of _ g] exI[of _ g'] h1 h2 m k1 k2 g1 gc g3 g1' r b c)
qed

text \<open>
  Claim C2, as stated (identifiers in first-seen order, and stable as later captures add
  names), fails: the identifier of a name is its position in \<^verbatim>\<open>list(self.function_names)\<close>,
  the iteration order of a Python set, made anew at every call. After the one capture
  \<open>f, main\<close> the set may be listed as \<open>main, f\<close>, where identifier 0 is \<open>main\<close> although
  \<open>f\<close> was seen first; and after a further capture of \<open>g\<close> it may be listed as
  \<open>g, main, f\<close>, where identifier 0 has passed from \<open>main\<close> to \<open>g\<close>.
\<close>

theorem ids_not_first_seen:
  "listing (function_names (captures [[Some ''f'', Some ''main'']] init)) [''main'', ''f'']
   \<and> first_seen (stacks (captures [[Some ''f'', Some ''main'']] init)) = [''f'', ''main'']
   \<and> create_and_view_graph [''main'', ''f''] (captures [[Some ''f'', Some ''main'']] init)
       = Inr \<lparr>graph_name = ''breakpoint_location'',
              node_stmts = [(''0'', ''main''), (''1'', ''f'')],
              edge_stmts = {(''0'', ''1'')}\<rparr>
   \<and> listing (function_names (captures [[Some ''f'', Some ''main''], [Some ''g'']] init))
         [''g'', ''main'', ''f'']
   \<and> create_and_view_graph [''g'', ''main'', ''f'']
         (captures [[Some ''f'', Some ''main''], [Some ''g'']] init)
       = Inr \<lparr>graph_name = ''breakpoint_location'',
              node_stmts = [(''0'', ''g''), (''1'', ''main''), (''2'', ''f'')],
              edge_stmts = {(''1'', ''2'')}\<rparr>"
  by (auto simp: listing_def first_seen_def stop_def init_def tidy_def tidy_prefixes_def
      strip_groups_def create_and_view_graph_def py_range_def add_nodes_def
      str_nat.simps digit_char_def)

text \<open>
  Claim C2, amended. At every point of a session and for every order in which Python lists
  the set of names, the identifiers of one graph are one-to-one with the current names: the
  node statements carry the positions \<open>0, 1, ...\<close> as identifiers and the names as labels,
  both without repetition, the labels are exactly the names, a name's identifier is found
  by the lookup the edge loop uses, and reading an identifier back gives the name. This
  holds for both scripts. (The order of the identifiers is that of the listing.)
\<close>

theorem node_ids_one_to_one:
  assumes "listing (function_names (captures evs init)) fnl"
    and "listing (function_names_i (captures_i evs_i init_i)) fnl_i"
  shows "(\<exists>g. create_and_view_graph fnl (captures evs init) = Inr g
            \<and> assigns_ids (node_stmts g) fnl (function_names (captures evs init)))
       \<and> (\<exists>g. create_and_view_graph_i fnl_i sel (captures_i evs_i init_i) = Inr g
            \<and> assigns_ids (node_stmts_i g) fnl_i (function_names_i (captures_i evs_i init_i)))"
proof -
  have "create_and_view_graph fnl (captures evs init) =
      Inr \<lparr>graph_name = name (captures evs init), node_stmts = add_nodes fnl,
           edge_stmts = edge_id fnl ` observed (stacks (captures evs init))\<rparr>"
    using assms(1) by (intro create_and_view_graph_ok session_stacks_listed)
  moreover have "create_and_view_graph_i fnl_i sel (captures_i evs_i init_i) =
      Inr \<lparr>graph_name_i = name_i (captures_i evs_i init_i), node_stmts_i = add_nodes fnl_i,
           edge_stmts_i = painted fnl_i sel (enumerate 0 (stacks_and_locals (captures_i evs_i init_i)))\<rparr>"
    using assms(2) by (intro create_and_view_graph_i_ok session_stacks_listed_i)
  ultimately show ?thesis
    using listing_assigns_ids[OF assms(1)] listing_assigns_ids[OF assms(2)] by simp
qed

theorem node_ids_one_to_one_witness:
  "listing (function_names (captures [[Some ''f'', Some ''main'']] init)) [''main'', ''f'']
   \<and> listing (function_names_i (captures_i [([], [Some ''f'', Some ''main''])] init_i)) [''f'', ''main'']
   \<and> (\<exists>g. create_and_view_graph [''main'', ''f''] (captures [[Some ''f'', Some ''main'']] init) = Inr g
          \<and> map snd (node_stmts g) = [''main'', ''f''])
   \<and> (\<exists>g. create_and_view_graph_i [''f'', ''main''] (Some 0)
              (captures_i [([], [Some ''f'', Some ''main''])] init_i) = Inr g
          \<and> map snd (node_stmts_i g) = [''f'', ''main''])"
proof -
  have h1: "listing (function_names (captures [[Some ''f'', Some ''main'']] init)) [''main'', ''f'']"
    by (auto simp: listing_def stop_def init_def tidy_def tidy_prefixes_def strip_groups_def)
  have h2: "listing (function_names_i (captures_i [([], [Some ''f'', Some ''main''])] init_i)) [''f'', ''main'']"
    by (auto simp: listing_def stop_i_def init_i_def tidy_def tidy_prefixes_def strip_groups_def)
  note w = node_ids_one_to_one[OF h1 h2, of "Some 0"]
  from w obtain g where g: "create_and_view_graph [''main'', ''f'']
      (captures [[Some ''f'', Some ''main'']] init) = Inr g" "map snd (node_stmts g) = [''main'', ''f'']"
    unfolding assigns_ids_def by auto
  from w obtain g' where g': "create_and_view_graph_i [''f'', ''main''] (Some 0)
      (captures_i [([], [Some ''f'', Some ''main''])] init_i) = Inr g'"
      "map snd (node_stmts_i g') = [''f'', ''main'']"
    unfolding assigns_ids_def by auto
  from g g' h1 h2 show ?thesis by (intro conjI exI[of _ g] exI[of _ g'])
qed

text \<open>
  Claim C3, as stated (an index that is no trace's fails with an error), fails: the code
  never checks the index. With three traces and index 99 the call returns a graph, every
  edge black.
\<close>

theorem out_of_range_returns:
  "create_and_view_graph_i [''c'', ''b'', ''a'', ''d''] (Some 99)
     (captures_i [([], [Some ''c'', Some ''b'', Some ''a'']),
                  ([], [Some ''c'', Some ''d'', Some ''a'']),
                  ([], [Some ''c''])] init_i)
   = Inr \<lparr>graph_name_i = ''array-c-bridge-test'',
          node_stmts_i = [(''0'', ''c''), (''1'', ''b''), (''2'', ''a''), (''3'', ''d'')],
          edge_stmts_i = {(''1'', ''0'', ''black''), (''2'', ''1'', ''black''),
                          (''3'', ''0'', ''black''), (''2'', ''3'', ''black'')}\<rparr>"
  by (auto simp: run_defs)

text \<open>
  Claim C3, amended. For every session and every index that is no captured trace's
  (negative, or at least the number of traces), the call returns the same graph as with no
  selection; no error is raised and no edge is red.
\<close>

theorem out_of_range_selects_nothing:
  assumes "listing (function_names_i (captures_i evs init_i)) fnl"
    and "k < 0 \<or> int (length (stacks_and_locals (captures_i evs init_i))) \<le> k"
  shows "create_and_view_graph_i fnl (Some k) (captures_i evs init_i)
           = create_and_view_graph_i fnl None (captures_i evs init_i)
       \<and> (\<exists>g. create_and_view_graph_i fnl (Some k) (captures_i evs init_i) = Inr g
              \<and> coloured ''red'' g = {})"
proof -
  note l = session_stacks_listed_i[OF assms(1)]
  have "\<forall>i<length (stacks_and_locals (captures_i evs init_i)). \<not> py_is i (Some k)"
    using assms(2) py_is_out_of_range by blast
  note a = no_match_is_black[OF l this]
  have "\<forall>i<length (stacks_and_locals (captures_i evs init_i)). \<not> py_is i None"
    by (simp add: py_is_None)
  note b = no_match_is_black[OF l this]
  show ?thesis
    unfolding a b by (simp add: coloured_red_black_only)
qed

theorem out_of_range_selects_nothing_witness:
  "listing (function_names_i (captures_i [([], [Some ''c'', Some ''b''])] init_i)) [''c'', ''b'']
   \<and> int (length (stacks_and_locals (captures_i [([], [Some ''c'', Some ''b''])] init_i))) \<le> 99
   \<and> create_and_view_graph_i [''c'', ''b''] (Some 99) (captures_i [([], [Some ''c'', Some ''b''])] init_i)
       = create_and_view_graph_i [''c'', ''b''] None (captures_i [([], [Some ''c'', Some ''b''])] init_i)"
proof -
  have h1: "listing (function_names_i (captures_i [([], [Some ''c'', Some ''b''])] init_i)) [''c'', ''b'']"
    by (auto simp: run_defs)
  have h2: "int (length (stacks_and_locals (captures_i [([], [Some ''c'', Some ''b''])] init_i))) \<le> 99"
    by (simp add: run_defs)
  from h2 have "99 < 0 \<or> int (length (stacks_and_locals (captures_i [([], [Some ''c'', Some ''b''])] init_i))) \<le> 99"
    by blast
  from out_of_range_selects_nothing[OF h1 this] h1 h2 show ?thesis by blast
qed

text \<open>
  Claim C4. Aggregation does not depend on the order of the captures: for every
  permutation of the frame chains captured, the set of names is the same, both graphs are
  built, their node labels are the same set, and their edges, read through the node
  labels, are the same set of (caller, callee) pairs, the distinct adjacencies observed.
  When Python lists the names in the same order, the two graphs are equal.
\<close>

theorem aggregation_order_independent:
  assumes "mset evs' = mset evs"
    and "listing (function_names (captures evs init)) fnl"
    and "listing (function_names (captures evs' init)) fnl'"
  shows "function_names (captures evs' init) = function_names (captures evs init)
    \<and> (\<exists>g g'. create_and_view_graph fnl (captures evs init) = Inr g
          \<and> create_and_view_graph fnl' (captures evs' init) = Inr g'
          \<and> set (map snd (node_stmts g')) = set (map snd (node_stmts g))
          \<and> labelled_edges g' = labelled_edges g
          \<and> labelled_edges g = (\<lambda>e. (Some (fst e), Some (snd e))) ` observed (stacks (captures evs init))
          \<and> (fnl' = fnl \<longrightarrow> g' = g))"
proof -
  let ?g = "\<lparr>graph_name = ''breakpoint_location'', node_stmts = add_nodes fnl,
           edge_stmts = edge_id fnl ` observed (stacks (captures evs init))\<rparr>"
  let ?g' = "\<lparr>graph_name = ''breakpoint_location'', node_stmts = add_nodes fnl',
           edge_stmts = edge_id fnl' ` observed (stacks (captures evs' init))\<rparr>"
  have n: "function_names (captures evs' init) = function_names (captures evs init)"
    using assms(1) by (rule permuted_names)
  have o: "observed (stacks (captures evs' init)) = observed (stacks (captures evs init))"
    using assms(1) by (intro observed_cong permuted_stacks)
  have s: "set fnl' = set fnl"
    using assms(2,3) n by (simp add: listing_def)
  have l: "labelled_edges ?g = (\<lambda>e. (Some (fst e), Some (snd e))) ` observed (stacks (captures evs init))"
    by (intro labelled_edges_graph observed_in_listing session_stacks_listed assms(2))
  have l': "labelled_edges ?g' = (\<lambda>e. (Some (fst e), Some (snd e))) ` observed (stacks (captures evs' init))"
    by (intro labelled_edges_graph observed_in_listing session_stacks_listed assms(3))
  have g: "create_and_view_graph fnl (captures evs init) = Inr ?g"
    by (rule session_graph[OF assms(2)])
  have g': "create_and_view_graph fnl' (captures evs' init) = Inr ?g'"
    by (rule session_graph[OF assms(3)])
  have ns: "set (map snd (node_stmts ?g')) = set (map snd (node_stmts ?g))"
    using s by (simp add: map_snd_add_nodes)
  have le: "labelled_edges ?g' = labelled_edges ?g"
    unfolding l l' by (simp only: o)
  have eq: "fnl' = fnl \<longrightarrow> ?g' = ?g"
    using o by simp
  from n g g' ns le l eq show ?thesis
    by (intro conjI exI[of _ ?g] exI[of _ ?g'])
qed

theorem aggregation_order_independent_witness:
  "mset [[Some ''c'', Some ''d'', Some ''a''], [Some ''c'', Some ''b'', Some ''a'']]
     = mset [[Some ''c'', Some ''b'', Some ''a''], [Some ''c'', Some ''d'', Some ''a'']]
   \<and> listing (function_names (captures
        [[Some ''c'', Some ''b'', Some ''a''], [Some ''c'', Some ''d'', Some ''a'']] init))
        [''c'', ''b'', ''a'', ''d'']
   \<and> listing (function_names (captures
        [[Some ''c'', Some ''d'', Some ''a''], [Some ''c'', Some ''b'', Some ''a'']] init))
        [''c'', ''d'', ''a'', ''b'']
   \<and> (\<exists>g g'. create_and_view_graph [''c'', ''b'', ''a'', ''d''] (captures
        [[Some ''c'', Some ''b'', Some ''a''], [Some ''c'', Some ''d'', Some ''a'']] init) = Inr g
     \<and> create_and_view_graph [''c'', ''d'', ''a'', ''b''] (captures
        [[Some ''c'', Some ''d'', Some ''a''], [Some ''c'', Some ''b'', Some ''a'']] init) = Inr g'
     \<and> labelled_edges g' = labelled_edges g
     \<and> labelled_edges g = {(Some ''b'', Some ''c''), (Some ''a'', Some ''b''),
                            (Some ''d'', Some ''c''), (Some ''a'', Some ''d'')})"
proof -
  let ?evs = "[[Some ''c'', Some ''b'', Some ''a''], [Some ''c'', Some ''d'', Some ''a'']]"
  let ?evs' = "[[Some ''c'', Some ''d'', Some ''a''], [Some ''c'', Some ''b'', Some ''a'']]"
  have h0: "mset ?evs' = mset ?evs" by (simp add: add.commute)
  have h1: "listing (function_names (captures ?evs init)) [''c'', ''b'', ''a'', ''d'']"
    by (auto simp: run_defs)
  have h2: "listing (function_names (captures ?evs' init)) [''c'', ''d'', ''a'', ''b'']"
    by (auto simp: run_defs)
  have o: "observed (stacks (captures ?evs init))
      = {(''b'', ''c''), (''a'', ''b''), (''d'', ''c''), (''a'', ''d'')}"
    by (auto simp: run_defs observed_def adjacent_def)
  from aggregation_order_independent[OF h0 h1 h2]
  obtain g g' where g: "create_and_view_graph [''c'', ''b'', ''a'', ''d''] (captures ?evs init) = Inr g"
    "create_and_view_graph [''c'', ''d'', ''a'', ''b''] (captures ?evs' init) = Inr g'"
    "labelled_edges g' = labelled_edges g"
    "labelled_edges g = (\<lambda>e. (Some (fst e), Some (snd e))) ` observed (stacks (captures ?evs init))"
    by blast
  from g(4) have "labelled_edges g = {(Some ''b'', Some ''c''), (Some ''a'', Some ''b''),
                            (Some ''d'', Some ''c''), (Some ''a'', Some ''d'')}"
    unfolding o by simp
  with g(1,2,3) h0 h1 h2 show ?thesis
    by (intro conjI exI[of _ g] exI[of _ g']) simp_all
qed

text \<open>
  Claim C6 (selecting a trace distinguishes exactly that trace's adjacencies) holds for
  the traces of index up to 256, by \<open>highlight_small_index\<close>, and not beyond: the code
  compares the indices with \<^verbatim>\<open>is\<close>. In a session of 258 traces, selecting the trace of
  index 257, whose frames are \<open>f0, f1, f2\<close>, gives a graph with both edges black.
\<close>

theorem highlight_lost_beyond_256:
  "length (stacks_and_locals
      (captures_i (replicate 258 ([], [Some ''f0'', Some ''f1'', Some ''f2''])) init_i)) = 258
   \<and> fst (stacks_and_locals
      (captures_i (replicate 258 ([], [Some ''f0'', Some ''f1'', Some ''f2''])) init_i) ! 257)
       = [''f0'', ''f1'', ''f2'']
   \<and> create_and_view_graph_i [''f0'', ''f1'', ''f2''] (Some 257)
       (captures_i (replicate 258 ([], [Some ''f0'', Some ''f1'', Some ''f2''])) init_i)
     = Inr \<lparr>graph_name_i = ''array-c-bridge-test'',
            node_stmts_i = [(''0'', ''f0''), (''1'', ''f1''), (''2'', ''f2'')],
            edge_stmts_i = {(''1'', ''0'', ''black''), (''2'', ''1'', ''black'')}\<rparr>"
proof -
  let ?bp = "captures_i (replicate 258 ([], [Some ''f0'', Some ''f1'', Some ''f2''])) init_i"
  have l: "\<forall>p\<in>set (stacks_and_locals ?bp). set (fst p) \<subseteq> set [''f0'', ''f1'', ''f2'']"
    by (simp add: replicated_session(1))
  have n: "\<forall>i<length (stacks_and_locals ?bp). \<not> py_is i (Some 257)"
    by (simp add: py_is_def)
  have o: "observed (map fst (stacks_and_locals ?bp)) = {(''f1'', ''f0''), (''f2'', ''f1'')}"
    by (simp add: replicated_session(1) observed_Union adjacent_def)
  have "create_and_view_graph_i [''f0'', ''f1'', ''f2''] (Some 257) ?bp
     = Inr \<lparr>graph_name_i = ''array-c-bridge-test'',
            node_stmts_i = [(''0'', ''f0''), (''1'', ''f1''), (''2'', ''f2'')],
            edge_stmts_i = {(''1'', ''0'', ''black''), (''2'', ''1'', ''black'')}\<rparr>"
    unfolding no_match_is_black[OF l n] o
    by (simp add: replicated_session(3) add_nodes_def node_id_def index_of_def
        str_nat.simps digit_char_def)
  then show ?thesis
    by (simp add: replicated_session(1))
qed

text \<open>
  Claim C9. A trace with fewer than two frames adds no edge and raises no error, whatever
  the names listed: the edge loop returns the edges it was given, and the graph is the one
  built without that trace. A capture of one frame adds its normalised name to the names
  and the one-name stack to the stacks; from a new object the graph then has exactly one
  node and no edge.
\<close>

theorem short_trace_contributes_no_edge:
  assumes "length stack < 2"
  shows "add_stack_edges fnl stack (py_range (int (length stack) - 1)) edges = Inr edges
    \<and> add_all_edges fnl (before @ stack # after) edges = add_all_edges fnl (before @ after) edges
    \<and> create_and_view_graph fnl (bp\<lparr>stacks := before @ stack # after\<rparr>)
        = create_and_view_graph fnl (bp\<lparr>stacks := before @ after\<rparr>)
    \<and> stop [Some n] bp =
        (bp\<lparr>function_names := insert (tidy n) (function_names bp),
            stacks := stacks bp @ [[tidy n]]\<rparr>, Inr False)
    \<and> create_and_view_graph [tidy n] (fst (stop [Some n] init))
        = Inr \<lparr>graph_name = ''breakpoint_location'',
               node_stmts = [(''0'', tidy n)], edge_stmts = {}\<rparr>"
proof -
  have a: "add_stack_edges fnl stack (py_range (int (length stack) - 1)) edges = Inr edges" for edges
    using assms by (rule short_stack_no_edges)
  have b: "add_all_edges fnl (before @ stack # after) edges = add_all_edges fnl (before @ after) edges" for edges
    by (simp add: add_all_edges_append a split: sum.splits)
  have c: "stop [Some n] bp =
        (bp\<lparr>function_names := insert (tidy n) (function_names bp),
            stacks := stacks bp @ [[tidy n]]\<rparr>, Inr False)" for bp
    by (simp add: stop_def)
  have d: "create_and_view_graph [tidy n] (fst (stop [Some n] init))
        = Inr \<lparr>graph_name = ''breakpoint_location'',
               node_stmts = [(''0'', tidy n)], edge_stmts = {}\<rparr>"
    by (simp add: c create_and_view_graph_def init_def py_range_def add_nodes_def
        str_nat.simps digit_char_def)
  have e: "create_and_view_graph fnl (bp\<lparr>stacks := before @ stack # after\<rparr>)
        = create_and_view_graph fnl (bp\<lparr>stacks := before @ after\<rparr>)"
    by (simp add: create_and_view_graph_def b split: sum.splits)
  from a b c d e show ?thesis by blast
qed

theorem short_trace_witness:
  "length [''main''] < 2
   \<and> create_and_view_graph [''main'', ''f'']
        \<lparr>name = ''g'', function_names = {''main'', ''f''}, stacks = [[''f'', ''main'']] @ [''main''] # []\<rparr>
      = create_and_view_graph [''main'', ''f'']
        \<lparr>name = ''g'', function_names = {''main'', ''f''}, stacks = [[''f'', ''main'']] @ []\<rparr>"
proof -
  have h: "length [''main''] < 2" by simp
  from short_trace_contributes_no_edge[OF h, of "[''main'', ''f'']" _ "[[''f'', ''main'']]" "[]"
      "\<lparr>name = ''g'', function_names = {''main'', ''f''}, stacks = []\<rparr>"]
  show ?thesis using h by simp
qed

text \<open>
  Claim C10. After every sequence of captures, every name of every stored stack is in the
  set of names, so every lookup of the edge loop finds its name, and
  \<open>create_and_view_graph\<close> returns a graph, never \<^verbatim>\<open>ValueError\<close>.
\<close>

theorem lookups_succeed:
  assumes "listing (function_names (captures evs init)) fnl"
  shows "(\<forall>stack\<in>set (stacks (captures evs init)). \<forall>x\<in>set stack.
            x \<in> function_names (captures evs init) \<and> list_index fnl x = Inr (index_of fnl x))
       \<and> (\<exists>g. create_and_view_graph fnl (captures evs init) = Inr g)"
proof -
  have l: "\<forall>stack\<in>set (stacks (captures evs init)). set stack \<subseteq> set fnl"
    using assms by (rule session_stacks_listed)
  have "\<forall>stack\<in>set (stacks (captures evs init)). \<forall>x\<in>set stack.
            x \<in> function_names (captures evs init) \<and> list_index fnl x = Inr (index_of fnl x)"
  proof (intro ballI conjI)
    fix stack x assume "stack \<in> set (stacks (captures evs init))" "x \<in> set stack"
    then show "x \<in> function_names (captures evs init)"
      using captures_consistent by blast
    with assms show "list_index fnl x = Inr (index_of fnl x)"
      by (simp add: list_index_found listing_def)
  qed
  moreover have "\<exists>g. create_and_view_graph fnl (captures evs init) = Inr g"
    using create_and_view_graph_ok[OF l] by blast
  ultimately show ?thesis by blast
qed

theorem lookups_succeed_witness:
  "listing (function_names (captures [[Some ''c()'', Some ''arrow::main'']] init)) [''main'', ''c'']
   \<and> (\<exists>g. create_and_view_graph [''main'', ''c''] (captures [[Some ''c()'', Some ''arrow::main'']] init) = Inr g)"
proof -
  have h: "listing (function_names (captures [[Some ''c()'', Some ''arrow::main'']] init)) [''main'', ''c'']"
    by (auto simp: listing_def stop_def init_def tidy_def tidy_prefixes_def strip_groups_def)
  from lookups_succeed[OF h] h show ?thesis by blast
qed

end
